theory Spec2Isabelle
  imports
    Main
    "HOL-Library.Word"
    "HOL-Library.List_Lexorder"
    "HOL-Library.Multiset"
begin

section \<open>Strings\<close>

text \<open>
  A JavaScript string is a sequence of 16-bit code units, and the relational operators
  on two strings compare them code unit by code unit, the shorter string first when it
  is a prefix of the longer one. That is the lexicographic order of lists over the
  order of \<open>16 word\<close>. Lines of text, file names and file contents are all such strings.
  A literal is written \<open>js ''abc''\<close>.
\<close>

type_synonym js_string = "16 word list"

definition js :: "string \<Rightarrow> js_string" where
  "js s = map (\<lambda>c. of_nat (of_char c)) s"

section \<open>merger.js: the binary min-heap\<close>

text \<open>
  \<open>MinHeap\<close> keeps its elements in the array \<open>this.heap\<close> and orders them with
  \<open>this.compareFn\<close>, a function to a number of which only the sign is read. The array
  is a list; the comparison function is the first argument of every operation.
  The destructuring assignment \<open>[a[i], a[j]] = [a[j], a[i]]\<close> reads both cells before it
  writes either.
\<close>

definition swap :: "'a list \<Rightarrow> nat \<Rightarrow> nat \<Rightarrow> 'a list" where
  "swap h i j = h[i := h ! j, j := h ! i]"

text \<open>
  \<open>_siftUp(index)\<close>: \<open>Math.floor((index - 1) / 2)\<close> is only read when \<open>index > 0\<close>,
  where it is \<open>(index - 1) div 2\<close>.
\<close>

function siftUp :: "('a \<Rightarrow> 'a \<Rightarrow> int) \<Rightarrow> 'a list \<Rightarrow> nat \<Rightarrow> 'a list" where
  "siftUp compareFn h index =
     (let parent = (index - 1) div 2
      in if index > 0 \<and> compareFn (h ! index) (h ! parent) < 0
         then siftUp compareFn (swap h index parent) parent
         else h)"
  by pat_completeness auto
termination
  by (relation "measure (\<lambda>(compareFn, h, index). index)") auto

declare siftUp.simps [simp del]

text \<open>\<open>_siftDown(index)\<close>, recursive in the source as well.\<close>

definition smallest_of :: "('a \<Rightarrow> 'a \<Rightarrow> int) \<Rightarrow> 'a list \<Rightarrow> nat \<Rightarrow> nat" where
  "smallest_of compareFn h index =
     (let left = 2 * index + 1;
          right = 2 * index + 2;
          smallest = index;
          smallest = (if left < length h \<and> compareFn (h ! left) (h ! smallest) < 0
                      then left else smallest);
          smallest = (if right < length h \<and> compareFn (h ! right) (h ! smallest) < 0
                      then right else smallest)
      in smallest)"

lemma smallest_of_cases:
  "smallest_of c h i = i \<or>
   (smallest_of c h i = 2 * i + 1 \<and> 2 * i + 1 < length h) \<or>
   (smallest_of c h i = 2 * i + 2 \<and> 2 * i + 2 < length h)"
  by (simp add: smallest_of_def Let_def)

function siftDown :: "('a \<Rightarrow> 'a \<Rightarrow> int) \<Rightarrow> 'a list \<Rightarrow> nat \<Rightarrow> 'a list" where
  "siftDown compareFn h index =
     (let smallest = smallest_of compareFn h index
      in if smallest \<noteq> index
         then siftDown compareFn (swap h index smallest) smallest
         else h)"
  by pat_completeness auto
termination
proof (relation "measure (\<lambda>(compareFn, h, index). length h - index)", goal_cases)
  case 1
  show ?case by simp
next
  case (2 compareFn h index smallest)
  then show ?case
    using smallest_of_cases [of compareFn h index] by (auto simp: swap_def)
qed

declare siftDown.simps [simp del]

text \<open>\<open>insert(element)\<close>: push, then sift the last cell up.\<close>

definition insert_heap :: "('a \<Rightarrow> 'a \<Rightarrow> int) \<Rightarrow> 'a list \<Rightarrow> 'a \<Rightarrow> 'a list" where
  "insert_heap compareFn h element =
     (let h1 = h @ [element] in siftUp compareFn h1 (length h1 - 1))"

text \<open>
  \<open>extractMin()\<close> returns \<open>null\<close> on the empty heap (\<open>None\<close> here); otherwise the first
  cell, after the popped last cell has taken its place and been sifted down.
\<close>

definition extractMin :: "('a \<Rightarrow> 'a \<Rightarrow> int) \<Rightarrow> 'a list \<Rightarrow> 'a option \<times> 'a list" where
  "extractMin compareFn h =
     (if length h = 0 then (None, h)
      else let min = h ! 0;
               last = last h;
               h1 = butlast h
           in if length h1 > 0 then (Some min, siftDown compareFn (h1[0 := last]) 0)
              else (Some min, h1))"


subsection \<open>The heap operations keep the elements\<close>

lemma length_swap [simp]: "length (swap h i j) = length h"
  by (simp add: swap_def)

lemma mset_swap_heap: "i < length h \<Longrightarrow> j < length h \<Longrightarrow> mset (swap h i j) = mset h"
  unfolding swap_def by (simp add: mset_swap)

lemma nth_swap:
  "i < length h \<Longrightarrow> j < length h \<Longrightarrow> k < length h \<Longrightarrow>
   swap h i j ! k = (if k = j then h ! i else if k = i then h ! j else h ! k)"
  by (simp add: swap_def nth_list_update)

lemma length_siftUp [simp]: "length (siftUp c h i) = length h"
proof (induction c h i rule: siftUp.induct)
  case (1 c h i)
  show ?case
    using "1.IH" by (subst siftUp.simps) (simp add: Let_def)
qed

lemma mset_siftUp: "i < length h \<Longrightarrow> mset (siftUp c h i) = mset h"
proof (induction c h i rule: siftUp.induct)
  case (1 c h i)
  show ?case
  proof (cases "i > 0 \<and> c (h ! i) (h ! ((i - 1) div 2)) < 0")
    case True
    then have p: "(i - 1) div 2 < length h"
      using "1.prems" by simp
    have "mset (siftUp c (swap h i ((i - 1) div 2)) ((i - 1) div 2)) =
          mset (swap h i ((i - 1) div 2))"
      using "1.IH" [OF refl True] p by simp
    then show ?thesis
      using True p "1.prems" by (subst siftUp.simps) (simp add: Let_def mset_swap_heap)
  next
    case False
    then show ?thesis by (subst siftUp.simps) auto
  qed
qed

lemma length_siftDown [simp]: "length (siftDown c h i) = length h"
proof (induction c h i rule: siftDown.induct)
  case (1 c h i)
  show ?case
    using "1.IH" by (subst siftDown.simps) (simp add: Let_def)
qed

lemma mset_siftDown: "i < length h \<Longrightarrow> mset (siftDown c h i) = mset h"
proof (induction c h i rule: siftDown.induct)
  case (1 c h i)
  show ?case
  proof (cases "smallest_of c h i = i")
    case True
    then show ?thesis by (subst siftDown.simps) simp
  next
    case False
    then have s: "smallest_of c h i < length h"
      using smallest_of_cases [of c h i] by auto
    have "mset (siftDown c (swap h i (smallest_of c h i)) (smallest_of c h i)) =
          mset (swap h i (smallest_of c h i))"
      using "1.IH" [OF refl False] s by simp
    then show ?thesis
      using False s "1.prems" by (subst siftDown.simps) (simp add: Let_def mset_swap_heap)
  qed
qed

lemma mset_insert_heap: "mset (insert_heap c h x) = mset h + {#x#}"
  by (simp add: insert_heap_def Let_def mset_siftUp)

lemma length_insert_heap [simp]: "length (insert_heap c h x) = Suc (length h)"
  by (simp add: insert_heap_def Let_def)

lemma extractMin_empty [simp]: "extractMin c [] = (None, [])"
  by (simp add: extractMin_def)

lemma extractMin_Some:
  assumes "h \<noteq> []"
  shows "\<exists>h'. extractMin c h = (Some (h ! 0), h') \<and> mset h = mset h' + {#h ! 0#}
              \<and> length h = Suc (length h')"
proof (cases "butlast h = []")
  case True
  with assms obtain x where "h = [x]"
    by (cases h) (auto split: if_splits)
  then show ?thesis
    by (simp add: extractMin_def Let_def)
next
  case False
  let ?h1 = "(butlast h)[0 := last h]"
  have e: "extractMin c h = (Some (h ! 0), siftDown c ?h1 0)"
    using False assms by (simp add: extractMin_def Let_def)
  have "h = butlast h @ [last h]"
    using assms by simp
  then have "mset h = mset (butlast h) + {#last h#}"
    by (metis mset.simps(1) mset.simps(2) mset_append)
  moreover have "mset ?h1 = mset (butlast h) - {#butlast h ! 0#} + {#last h#}"
    using mset_update [of 0 "butlast h" "last h"] False by (cases "butlast h") auto
  moreover have "butlast h ! 0 \<in># mset (butlast h)"
    using False by (cases "butlast h") auto
  moreover have "butlast h ! 0 = h ! 0"
    by (metis False length_greater_0_conv nth_butlast)
  ultimately have "mset ?h1 + {#h ! 0#} = mset h"
    by simp
  moreover have "mset (siftDown c ?h1 0) = mset ?h1"
    using False by (intro mset_siftDown) (cases "butlast h", auto)
  moreover have "length h = Suc (length (siftDown c ?h1 0))"
    using assms by (cases h) auto
  ultimately show ?thesis
    using e by simp
qed

subsection \<open>The heap order\<close>

text \<open>
  The heap order is stated for a key into a linear order with which the comparison
  function agrees on the elements at hand: \<open>compareFn a b < 0\<close> exactly when the key
  of \<open>a\<close> is below the key of \<open>b\<close>. Every cell but the root is at least its parent,
  the cell at \<open>(i - 1) div 2\<close>. While an element is sifted, the order holds everywhere
  except at the cell on the move.
\<close>

definition agrees :: "('a \<Rightarrow> 'a \<Rightarrow> int) \<Rightarrow> ('a \<Rightarrow> 'k::linorder) \<Rightarrow> 'a set \<Rightarrow> bool" where
  "agrees c key A \<longleftrightarrow> (\<forall>a\<in>A. \<forall>b\<in>A. (c a b < 0) = (key a < key b))"

definition heap_ok :: "('a \<Rightarrow> 'k::linorder) \<Rightarrow> 'a list \<Rightarrow> bool" where
  "heap_ok key h \<longleftrightarrow>
     (\<forall>i. 0 < i \<and> i < length h \<longrightarrow> key (h ! ((i - 1) div 2)) \<le> key (h ! i))"

definition up_inv :: "('a \<Rightarrow> 'k::linorder) \<Rightarrow> 'a list \<Rightarrow> nat \<Rightarrow> bool" where
  "up_inv key h k \<longleftrightarrow>
     (\<forall>i. 0 < i \<and> i < length h \<and> i \<noteq> k \<longrightarrow> key (h ! ((i - 1) div 2)) \<le> key (h ! i)) \<and>
     (\<forall>i. 0 < i \<and> i < length h \<and> (i - 1) div 2 = k \<and> 0 < k \<longrightarrow>
          key (h ! ((k - 1) div 2)) \<le> key (h ! i))"

definition down_inv :: "('a \<Rightarrow> 'k::linorder) \<Rightarrow> 'a list \<Rightarrow> nat \<Rightarrow> bool" where
  "down_inv key h k \<longleftrightarrow>
     (\<forall>i. 0 < i \<and> i < length h \<and> (i - 1) div 2 \<noteq> k \<longrightarrow>
          key (h ! ((i - 1) div 2)) \<le> key (h ! i)) \<and>
     (\<forall>i. 0 < i \<and> i < length h \<and> (i - 1) div 2 = k \<and> 0 < k \<longrightarrow>
          key (h ! ((k - 1) div 2)) \<le> key (h ! i))"

lemma parent_less: "0 < i \<Longrightarrow> (i - 1) div 2 < (i::nat)"
  by arith

lemma up_inv_step:
  assumes inv: "up_inv key h k" and k: "0 < k" "k < length h"
    and lt: "key (h ! k) < key (h ! ((k - 1) div 2))"
  shows "up_inv key (swap h k ((k - 1) div 2)) ((k - 1) div 2)"
proof -
  let ?p = "(k - 1) div 2"
  let ?h = "swap h k ?p"
  have p: "?p < k" "?p < length h" using k by auto
  have nth: "\<And>i. i < length h \<Longrightarrow> ?h ! i = (if i = ?p then h ! k else if i = k then h ! ?p else h ! i)"
    using k p by (simp add: nth_swap)
  have A: "\<And>i. 0 < i \<Longrightarrow> i < length h \<Longrightarrow> i \<noteq> k \<Longrightarrow> key (h ! ((i - 1) div 2)) \<le> key (h ! i)"
    using inv by (simp add: up_inv_def)
  have B: "\<And>i. 0 < i \<Longrightarrow> i < length h \<Longrightarrow> (i - 1) div 2 = k \<Longrightarrow> key (h ! ?p) \<le> key (h ! i)"
    using inv k by (simp add: up_inv_def)
  show ?thesis
    unfolding up_inv_def
  proof (intro conjI allI impI)
    fix i assume i: "0 < i \<and> i < length ?h \<and> i \<noteq> ?p"
    then have il: "i < length h" "(i - 1) div 2 < length h" "(i - 1) div 2 < i" by auto
    show "key (?h ! ((i - 1) div 2)) \<le> key (?h ! i)"
    proof (cases "i = k")
      case True
      then show ?thesis using nth [of k] nth [of ?p] p k lt by simp
    next
      case False
      then have hi: "?h ! i = h ! i" using nth [OF il(1)] i by simp
      show ?thesis
      proof (cases "(i - 1) div 2 = k")
        case True
        then show ?thesis using nth [of k] k p hi B [of i] i by simp
      next
        case nk: False
        show ?thesis
        proof (cases "(i - 1) div 2 = ?p")
          case True
          then show ?thesis using nth [of ?p] p hi A [of i] i False lt by simp
        next
          case np: False
          then show ?thesis using nth [OF il(2)] nk hi A [of i] i False by simp
        qed
      qed
    qed
  next
    fix i assume i: "0 < i \<and> i < length ?h \<and> (i - 1) div 2 = ?p \<and> 0 < ?p"
    then have il: "i < length h" by simp
    have pp: "(?p - 1) div 2 < ?p" using i parent_less [of ?p] by simp
    then have gp: "?h ! ((?p - 1) div 2) = h ! ((?p - 1) div 2)"
      using nth [of "(?p - 1) div 2"] p by simp
    have Ap: "key (h ! ((?p - 1) div 2)) \<le> key (h ! ?p)"
      using A [of ?p] i p by simp
    show "key (?h ! ((?p - 1) div 2)) \<le> key (?h ! i)"
    proof (cases "i = k")
      case True
      then show ?thesis using nth [of k] k p gp Ap by simp
    next
      case False
      moreover have "i \<noteq> ?p" using i parent_less [of i] by auto
      ultimately have "?h ! i = h ! i" using nth [OF il] by simp
      moreover have "key (h ! ?p) \<le> key (h ! i)" using A [of i] i False by simp
      ultimately show ?thesis using gp Ap by simp
    qed
  qed
qed

lemma set_swap: "i < length h \<Longrightarrow> j < length h \<Longrightarrow> set (swap h i j) = set h"
  by (metis mset_swap_heap set_mset_mset)

lemma siftUp_heap_ok:
  "agrees c key (set h) \<Longrightarrow> up_inv key h k \<Longrightarrow> k < length h \<Longrightarrow> heap_ok key (siftUp c h k)"
proof (induction c h k rule: siftUp.induct)
  case (1 c h k)
  let ?p = "(k - 1) div 2"
  show ?case
  proof (cases "k > 0 \<and> c (h ! k) (h ! ?p) < 0")
    case True
    then have p: "?p < length h" using "1.prems" by simp
    have lt: "key (h ! k) < key (h ! ?p)"
      using True "1.prems" p by (simp add: agrees_def)
    have "heap_ok key (siftUp c (swap h k ?p) ?p)"
      using "1.IH" [OF refl True] "1.prems" p True up_inv_step [OF "1.prems"(2) _ "1.prems"(3) lt]
      by (simp add: set_swap)
    then show ?thesis
      using True by (subst siftUp.simps) (simp add: Let_def)
  next
    case False
    have "heap_ok key h"
      unfolding heap_ok_def
    proof (intro allI impI)
      fix i assume i: "0 < i \<and> i < length h"
      show "key (h ! ((i - 1) div 2)) \<le> key (h ! i)"
      proof (cases "i = k")
        case True
        then have "\<not> c (h ! k) (h ! ?p) < 0" using False i by simp
        moreover have "?p < length h" using "1.prems" by simp
        ultimately have "\<not> key (h ! k) < key (h ! ?p)"
          using "1.prems" by (simp add: agrees_def)
        then show ?thesis using True by simp
      next
        case False
        then show ?thesis using "1.prems"(2) i by (simp add: up_inv_def)
      qed
    qed
    then show ?thesis
      using False by (subst siftUp.simps) (auto simp: Let_def)
  qed
qed

lemma insert_heap_ok:
  assumes "agrees c key (insert x (set h))" "heap_ok key h"
  shows "heap_ok key (insert_heap c h x)"
proof -
  have "up_inv key (h @ [x]) (length h)"
    unfolding up_inv_def
  proof (intro conjI allI impI)
    fix i assume i: "0 < i \<and> i < length (h @ [x]) \<and> i \<noteq> length h"
    then have "i < length h" "(i - 1) div 2 < length h" by auto
    then show "key ((h @ [x]) ! ((i - 1) div 2)) \<le> key ((h @ [x]) ! i)"
      using assms(2) i by (simp add: nth_append heap_ok_def)
  next
    fix i assume i: "0 < i \<and> i < length (h @ [x]) \<and> (i - 1) div 2 = length h \<and> 0 < length h"
    then have False by simp arith
    then show "key ((h @ [x]) ! ((length h - 1) div 2)) \<le> key ((h @ [x]) ! i)" ..
  qed
  then show ?thesis
    using assms(1) by (simp add: insert_heap_def Let_def siftUp_heap_ok)
qed


lemma parent_child: "0 < i \<Longrightarrow> ((i - 1) div 2 = k) = (i = 2 * k + 1 \<or> i = 2 * k + 2)" for i k :: nat
  by arith

lemma smallest_of_props:
  assumes ag: "agrees c key (set h)" and k: "k < length h"
  shows "key (h ! smallest_of c h k) \<le> key (h ! k)"
    and "2 * k + 1 < length h \<Longrightarrow> key (h ! smallest_of c h k) \<le> key (h ! (2 * k + 1))"
    and "2 * k + 2 < length h \<Longrightarrow> key (h ! smallest_of c h k) \<le> key (h ! (2 * k + 2))"
    and "smallest_of c h k < length h"
proof -
  have c: "\<And>i j. i < length h \<Longrightarrow> j < length h \<Longrightarrow> (c (h ! i) (h ! j) < 0) = (key (h ! i) < key (h ! j))"
    using ag by (simp add: agrees_def)
  show "key (h ! smallest_of c h k) \<le> key (h ! k)"
    using k c by (auto simp: smallest_of_def Let_def)
  show "2 * k + 1 < length h \<Longrightarrow> key (h ! smallest_of c h k) \<le> key (h ! (2 * k + 1))"
    using k c by (auto simp: smallest_of_def Let_def)
  show "2 * k + 2 < length h \<Longrightarrow> key (h ! smallest_of c h k) \<le> key (h ! (2 * k + 2))"
    using k c by (auto simp: smallest_of_def Let_def)
  show "smallest_of c h k < length h"
    using k by (auto simp: smallest_of_def Let_def)
qed

lemma down_inv_heap_ok:
  assumes ag: "agrees c key (set h)" and inv: "down_inv key h k" and k: "k < length h"
    and s: "smallest_of c h k = k"
  shows "heap_ok key h"
  unfolding heap_ok_def
proof (intro allI impI)
  fix i assume i: "0 < i \<and> i < length h"
  show "key (h ! ((i - 1) div 2)) \<le> key (h ! i)"
  proof (cases "(i - 1) div 2 = k")
    case True
    then have "i = 2 * k + 1 \<or> i = 2 * k + 2"
      using i parent_child [of i k] by simp
    then show ?thesis
      using smallest_of_props(2,3) [OF ag k] s i True by auto
  next
    case False
    then show ?thesis using inv i by (simp add: down_inv_def)
  qed
qed

lemma down_inv_step:
  assumes ag: "agrees c key (set h)" and inv: "down_inv key h k" and k: "k < length h"
    and s: "smallest_of c h k \<noteq> k"
  shows "down_inv key (swap h k (smallest_of c h k)) (smallest_of c h k)"
proof -
  let ?s = "smallest_of c h k"
  let ?h = "swap h k ?s"
  have sl: "?s < length h" by (rule smallest_of_props(4) [OF ag k])
  have sc: "?s = 2 * k + 1 \<or> ?s = 2 * k + 2"
    using smallest_of_cases [of c h k] s by auto
  then have ps: "(?s - 1) div 2 = k" "0 < ?s" "k < ?s"
    using parent_child [of ?s k] by auto
  have nth: "\<And>i. i < length h \<Longrightarrow> ?h ! i = (if i = ?s then h ! k else if i = k then h ! ?s else h ! i)"
    using k sl by (simp add: nth_swap)
  have A: "\<And>i. 0 < i \<Longrightarrow> i < length h \<Longrightarrow> (i - 1) div 2 \<noteq> k \<Longrightarrow> key (h ! ((i - 1) div 2)) \<le> key (h ! i)"
    using inv by (simp add: down_inv_def)
  have B: "\<And>i. 0 < i \<Longrightarrow> i < length h \<Longrightarrow> (i - 1) div 2 = k \<Longrightarrow> 0 < k \<Longrightarrow> key (h ! ((k - 1) div 2)) \<le> key (h ! i)"
    using inv by (simp add: down_inv_def)
  have C: "\<And>i. i < length h \<Longrightarrow> (i - 1) div 2 = k \<Longrightarrow> 0 < i \<Longrightarrow> key (h ! ?s) \<le> key (h ! i)"
    using smallest_of_props(2,3) [OF ag k] parent_child by metis
  have D: "key (h ! ?s) \<le> key (h ! k)"
    by (rule smallest_of_props(1) [OF ag k])
  show ?thesis
    unfolding down_inv_def
  proof (intro conjI allI impI)
    fix i assume i: "0 < i \<and> i < length ?h \<and> (i - 1) div 2 \<noteq> ?s"
    then have il: "i < length h" "(i - 1) div 2 < length h" "(i - 1) div 2 < i"
      using parent_less [of i] by auto
    show "key (?h ! ((i - 1) div 2)) \<le> key (?h ! i)"
    proof (cases "(i - 1) div 2 = k")
      case True
      then have hp: "?h ! ((i - 1) div 2) = h ! ?s"
        using nth [of k] k s by simp
      show ?thesis
      proof (cases "i = ?s")
        case True
        then show ?thesis using hp nth [of ?s] sl D by simp
      next
        case False
        then have "?h ! i = h ! i" using nth [OF il(1)] il(3) True by auto
        then show ?thesis using hp C [OF il(1) True] i by simp
      qed
    next
      case False
      then have hp: "?h ! ((i - 1) div 2) = h ! ((i - 1) div 2)"
        using nth [OF il(2)] i by simp
      have ns: "i \<noteq> ?s" using False ps by auto
      show ?thesis
      proof (cases "i = k")
        case True
        then have "?h ! i = h ! ?s" using nth [of k] k s by simp
        moreover have "key (h ! ((k - 1) div 2)) \<le> key (h ! ?s)"
          using B [of ?s] sl ps True i by simp
        ultimately show ?thesis using hp True by simp
      next
        case nk: False
        then have "?h ! i = h ! i" using nth [OF il(1)] ns by simp
        then show ?thesis using hp A [of i] i False by simp
      qed
    qed
  next
    fix i assume i: "0 < i \<and> i < length ?h \<and> (i - 1) div 2 = ?s \<and> 0 < ?s"
    then have il: "i < length h" "?s < i" using parent_less [of i] by auto
    then have "?h ! i = h ! i" using nth [OF il(1)] ps by auto
    moreover have "?h ! ((?s - 1) div 2) = h ! ?s" using ps nth [of k] k s by simp
    moreover have "key (h ! ?s) \<le> key (h ! i)" using A [of i] i ps by auto
    ultimately show "key (?h ! ((?s - 1) div 2)) \<le> key (?h ! i)" by simp
  qed
qed

lemma siftDown_heap_ok:
  "agrees c key (set h) \<Longrightarrow> down_inv key h k \<Longrightarrow> k < length h \<Longrightarrow> heap_ok key (siftDown c h k)"
proof (induction c h k rule: siftDown.induct)
  case (1 c h k)
  show ?case
  proof (cases "smallest_of c h k = k")
    case True
    then show ?thesis
      using down_inv_heap_ok [OF "1.prems" True] by (subst siftDown.simps) simp
  next
    case False
    have sl: "smallest_of c h k < length h"
      by (rule smallest_of_props(4) [OF "1.prems"(1,3)])
    have "heap_ok key (siftDown c (swap h k (smallest_of c h k)) (smallest_of c h k))"
      using "1.IH" [OF refl False] down_inv_step [OF "1.prems" False] "1.prems" sl
      by (simp add: set_swap)
    then show ?thesis
      using False by (subst siftDown.simps) (simp add: Let_def)
  qed
qed

lemma heap_ok_root:
  assumes "heap_ok key h"
  shows "i < length h \<Longrightarrow> key (h ! 0) \<le> key (h ! i)"
proof (induction i rule: less_induct)
  case (less i)
  show ?case
  proof (cases "i = 0")
    case True
    then show ?thesis by simp
  next
    case False
    then have p: "(i - 1) div 2 < i" using parent_less [of i] by simp
    then have "key (h ! 0) \<le> key (h ! ((i - 1) div 2))"
      using less by simp
    moreover have "key (h ! ((i - 1) div 2)) \<le> key (h ! i)"
      using assms False less.prems by (simp add: heap_ok_def)
    ultimately show ?thesis by simp
  qed
qed

lemma extractMin_heap_ok:
  assumes ag: "agrees c key (set h)" and ok: "heap_ok key h"
  shows "heap_ok key (snd (extractMin c h))"
proof (cases "butlast h = []")
  case True
  then have "length h \<le> 1"
    by (cases h) (auto split: if_splits)
  then have "snd (extractMin c h) = []"
    using True by (auto simp: extractMin_def Let_def)
  then show ?thesis by (simp add: heap_ok_def)
next
  case nonempty: False
  then have "1 < length h"
    by (cases h) (auto split: if_splits)
  then have True: "length (butlast h) > 0" by simp
  let ?h1 = "(butlast h)[0 := last h]"
  have e: "snd (extractMin c h) = siftDown c ?h1 0"
    using nonempty by (auto simp: extractMin_def Let_def)
  have "set ?h1 \<subseteq> set h"
    using True by (metis in_set_butlastD insert_subset last_in_set length_greater_0_conv butlast.simps(1) list.size(3) set_update_subset_insert subsetI subset_trans)
  then have ag1: "agrees c key (set ?h1)"
    using ag unfolding agrees_def by blast
  have "down_inv key ?h1 0"
    unfolding down_inv_def
  proof (intro conjI allI impI)
    fix i assume i: "0 < i \<and> i < length ?h1 \<and> (i - 1) div 2 \<noteq> 0"
    then have "i < length h" "?h1 ! i = h ! i" "?h1 ! ((i - 1) div 2) = h ! ((i - 1) div 2)"
      using parent_less [of i] by (auto simp: nth_butlast)
    then show "key (?h1 ! ((i - 1) div 2)) \<le> key (?h1 ! i)"
      using ok i by (simp add: heap_ok_def)
  next
    fix i assume "0 < i \<and> i < length ?h1 \<and> (i - 1) div 2 = 0 \<and> 0 < (0::nat)"
    then show "key (?h1 ! ((0 - 1) div 2)) \<le> key (?h1 ! i)" by simp
  qed
  then show ?thesis
    using e ag1 True by (simp add: siftDown_heap_ok)
qed


section \<open>merger.js: the k-way merge\<close>

subsection \<open>Readers\<close>

text \<open>
  \<open>reader.next()\<close> on the asynchronous iterator of a \<open>readline\<close> interface resolves to
  the next line, resolves to \<open>{done: true}\<close> at the end of the file, or rejects when the
  underlying stream fails. An iterator is the list of lines it has yet to deliver and a
  flag that says whether the stream fails once they are delivered.
\<close>

datatype line_iter = LineIter (pending: "js_string list") (broken: bool)

datatype next_result = Value js_string | Done | Rejected

definition iter_next :: "line_iter \<Rightarrow> next_result \<times> line_iter" where
  "iter_next it =
     (case pending it of
        l # ls \<Rightarrow> (Value l, LineIter ls (broken it))
      | [] \<Rightarrow> (if broken it then (Rejected, it) else (Done, it)))"

text \<open>
  The object pushed on \<open>readers\<close>: \<open>{path, reader, current, done}\<close>, with \<open>null\<close> for
  \<open>current\<close> as \<open>None\<close>.
\<close>

record reader_obj =
  r_path :: js_string
  r_reader :: line_iter
  r_current :: "js_string option"
  r_done :: bool

definition new_reader :: "js_string \<times> line_iter \<Rightarrow> reader_obj" where
  "new_reader pr = \<lparr>r_path = fst pr, r_reader = snd pr, r_current = None, r_done = False\<rparr>"

text \<open>
  The first \<open>next()\<close> of each reader. A rejection is caught and leaves the reader done
  with no current line.
\<close>

definition prime :: "reader_obj \<Rightarrow> reader_obj" where
  "prime r =
     (case iter_next (r_reader r) of
        (Value l, it) \<Rightarrow> r\<lparr>r_reader := it, r_done := False, r_current := Some l\<rparr>
      | (Done, it) \<Rightarrow> r\<lparr>r_reader := it, r_done := True, r_current := None\<rparr>
      | (Rejected, it) \<Rightarrow> r\<lparr>r_reader := it, r_done := True, r_current := None\<rparr>)"

text \<open>The comparison function handed to \<open>new MinHeap\<close>.\<close>

definition compareReaders :: "reader_obj \<Rightarrow> reader_obj \<Rightarrow> int" where
  "compareReaders a b =
     (if r_current a = None \<and> r_current b = None then 0
      else if r_current a = None then 1
      else if r_current b = None then - 1
      else if the (r_current a) < the (r_current b) then - 1
      else if the (r_current a) > the (r_current b) then 1
      else 0)"

subsection \<open>The merge loop\<close>

text \<open>
  The heap holds references to the reader objects of the array \<open>readers\<close>, and the loop
  mutates a reader after it has taken it out of the heap. The state keeps the objects in
  the list \<open>readers\<close>, and the heap holds their indices: a reference is an index into
  that list, and the heap compares two references by the objects they point to.
  \<open>writeStream\<close> is the list of lines written so far, each of which the source ends
  with a newline.
\<close>

record merge_state =
  readers :: "reader_obj list"
  heap :: "nat list"
  writeStream :: "js_string list"
  linesWritten :: nat

definition compareRefs :: "reader_obj list \<Rightarrow> nat \<Rightarrow> nat \<Rightarrow> int" where
  "compareRefs rs a b = compareReaders (rs ! a) (rs ! b)"

text \<open>
  \<open>reader.current + "\n"\<close> is string concatenation, which renders \<open>null\<close> as the four
  characters \<open>null\<close>.
\<close>

definition line_text :: "js_string option \<Rightarrow> js_string" where
  "line_text c = (case c of None \<Rightarrow> js ''null'' | Some l \<Rightarrow> l)"

text \<open>
  One iteration of \<open>while (heap.size() > 0)\<close>. The loop only runs it on a non-empty
  heap, where \<open>extractMin\<close> returns a reader. A reference always points to an object;
  the model leaves the loop body without effect on the readers for an index outside
  \<open>readers\<close>, a case that \<open>refs_in_range\<close> below excludes.
\<close>

definition merge_step :: "merge_state \<Rightarrow> merge_state" where
  "merge_step s =
     (case extractMin (compareRefs (readers s)) (heap s) of
        (None, h) \<Rightarrow> s
      | (Some ref, h) \<Rightarrow>
          if ref < length (readers s) then
            let reader = readers s ! ref;
                out = writeStream s @ [line_text (r_current reader)];
                n = linesWritten s + 1
            in (case iter_next (r_reader reader) of
                  (Value l, it) \<Rightarrow>
                    let rs = (readers s)[ref := reader\<lparr>r_reader := it, r_done := False,
                                                    r_current := Some l\<rparr>]
                    in \<lparr>readers = rs, heap = insert_heap (compareRefs rs) h ref,
                        writeStream = out, linesWritten = n\<rparr>
                | (Done, it) \<Rightarrow>
                    \<lparr>readers = (readers s)[ref := reader\<lparr>r_reader := it, r_done := True,
                                                       r_current := None\<rparr>],
                     heap = h, writeStream = out, linesWritten = n\<rparr>
                | (Rejected, it) \<Rightarrow>
                    \<lparr>readers = (readers s)[ref := reader\<lparr>r_reader := it, r_done := True\<rparr>],
                     heap = h, writeStream = out, linesWritten = n\<rparr>)
          else s\<lparr>heap := h\<rparr>)"

definition merge_measure :: "merge_state \<Rightarrow> nat" where
  "merge_measure s =
     sum_list (map (\<lambda>r. length (pending (r_reader r))) (readers s)) + length (heap s)"

lemma merge_step_decreases:
  assumes "length (heap s) > 0"
  shows "merge_measure (merge_step s) < merge_measure s"
proof -
  from assms obtain h where
    e: "extractMin (compareRefs (readers s)) (heap s) = (Some (heap s ! 0), h)"
    and l: "length (heap s) = Suc (length h)"
    using extractMin_Some [of "heap s" "compareRefs (readers s)"] by auto
  let ?f = "\<lambda>r. length (pending (r_reader r))"
  show ?thesis
  proof (cases "heap s ! 0 < length (readers s)")
    case False
    then show ?thesis
      using e l by (simp add: merge_step_def merge_measure_def)
  next
    case True
    let ?r = "readers s ! (heap s ! 0)"
    have upd: "\<And>r'. sum_list (map ?f ((readers s)[heap s ! 0 := r'])) + ?f ?r =
                    sum_list (map ?f (readers s)) + ?f r'"
    proof -
      fix r'
      have "?f ?r \<in> set (map ?f (readers s))"
        using True by simp
      then have "?f ?r \<le> sum_list (map ?f (readers s))"
        by (simp add: member_le_sum_list)
      then show "sum_list (map ?f ((readers s)[heap s ! 0 := r'])) + ?f ?r =
                 sum_list (map ?f (readers s)) + ?f r'"
        using True by (simp add: map_update sum_list_update)
    qed
    show ?thesis
    proof (cases "pending (r_reader ?r)")
      case Nil
      then show ?thesis
        using e l True upd [of "?r\<lparr>r_reader := r_reader ?r, r_done := True, r_current := None\<rparr>"]
          upd [of "?r\<lparr>r_reader := r_reader ?r, r_done := True\<rparr>"]
        by (simp add: merge_step_def merge_measure_def iter_next_def Let_def)
    next
      case (Cons x xs)
      then show ?thesis
        using e l True
          upd [of "?r\<lparr>r_reader := LineIter xs (broken (r_reader ?r)), r_done := False,
                          r_current := Some x\<rparr>"]
        by (simp add: merge_step_def merge_measure_def iter_next_def Let_def)
    qed
  qed
qed

function kWayMerge_loop :: "merge_state \<Rightarrow> merge_state" where
  "kWayMerge_loop s = (if length (heap s) > 0 then kWayMerge_loop (merge_step s) else s)"
  by pat_completeness auto
termination
  by (relation "measure merge_measure") (simp_all add: merge_step_decreases)

declare kWayMerge_loop.simps [simp del]

text \<open>
  Before the loop: one reader per chunk that could be opened, each primed with its
  first line, and a heap of the readers that have one.
\<close>

definition initial_heap :: "reader_obj list \<Rightarrow> nat list" where
  "initial_heap rs =
     fold (\<lambda>ref h. if \<not> r_done (rs ! ref) \<and> r_current (rs ! ref) \<noteq> None
                    then insert_heap (compareRefs rs) h ref else h)
          [0..<length rs] []"

definition initial_state :: "(js_string \<times> line_iter) list \<Rightarrow> merge_state" where
  "initial_state chunks =
     (let rs = map prime (map new_reader chunks)
      in \<lparr>readers = rs, heap = initial_heap rs, writeStream = [], linesWritten = 0\<rparr>)"

definition merge_readers :: "(js_string \<times> line_iter) list \<Rightarrow> merge_state" where
  "merge_readers chunks = kWayMerge_loop (initial_state chunks)"

subsection \<open>The states of the loop and its invariants\<close>

text \<open>
  \<open>loop_reaches s t\<close>: the loop started in \<open>s\<close> is in state \<open>t\<close> at the head of some
  iteration.
\<close>

inductive loop_reaches :: "merge_state \<Rightarrow> merge_state \<Rightarrow> bool" where
  start: "loop_reaches s s"
| iterate: "loop_reaches s t \<Longrightarrow> length (heap t) > 0 \<Longrightarrow> loop_reaches s (merge_step t)"

lemma loop_reaches_trans_step:
  "loop_reaches (merge_step s) t \<Longrightarrow> length (heap s) > 0 \<Longrightarrow> loop_reaches s t"
proof (induction "merge_step s" t rule: loop_reaches.induct)
  case start
  then show ?case by (auto intro: loop_reaches.intros)
next
  case (iterate t)
  then show ?case by (auto intro: loop_reaches.intros)
qed

lemma loop_reaches_final: "loop_reaches s (kWayMerge_loop s)"
proof (induction s rule: kWayMerge_loop.induct)
  case (1 s)
  show ?case
  proof (cases "length (heap s) > 0")
    case True
    then show ?thesis
      using "1.IH" loop_reaches_trans_step by (subst kWayMerge_loop.simps) simp
  next
    case False
    then show ?thesis by (subst kWayMerge_loop.simps) (simp add: loop_reaches.start)
  qed
qed

lemma heap_final: "heap (kWayMerge_loop s) = []"
proof (induction s rule: kWayMerge_loop.induct)
  case (1 s)
  then show ?case by (subst kWayMerge_loop.simps) simp
qed

definition cur_key :: "reader_obj list \<Rightarrow> nat \<Rightarrow> js_string" where
  "cur_key rs ref = the (r_current (rs ! ref))"

definition merge_inv :: "merge_state \<Rightarrow> bool" where
  "merge_inv s \<longleftrightarrow>
     distinct (heap s) \<and>
     (\<forall>ref\<in>set (heap s). ref < length (readers s) \<and> \<not> r_done (readers s ! ref)
                              \<and> r_current (readers s ! ref) \<noteq> None) \<and>
     heap_ok (cur_key (readers s)) (heap s)"

lemma agrees_live:
  assumes "\<forall>ref\<in>A. r_current (rs ! ref) \<noteq> None"
  shows "agrees (compareRefs rs) (cur_key rs) A"
  using assms by (auto simp: agrees_def compareRefs_def compareReaders_def cur_key_def)

lemma heap_ok_cong:
  assumes "\<forall>x\<in>set h. key x = key' x"
  shows "heap_ok key h = heap_ok key' h"
proof -
  have "\<And>i. i < length h \<Longrightarrow> key (h ! i) = key' (h ! i)"
    using assms by simp
  moreover have "\<And>i. 0 < i \<Longrightarrow> i < length h \<Longrightarrow> (i - 1) div 2 < length h"
    by simp
  ultimately show ?thesis
    unfolding heap_ok_def by (metis (no_types, lifting))
qed

lemma heap_ok_min:
  assumes "heap_ok key h" "x \<in> set h"
  shows "key (h ! 0) \<le> key x"
  using assms heap_ok_root [OF assms(1)] by (auto simp: in_set_conv_nth)

text \<open>What one extraction gives, as the invariants below need it.\<close>

lemma extract_facts:
  assumes inv: "merge_inv s" and ne: "length (heap s) > 0"
  obtains h where
    "extractMin (compareRefs (readers s)) (heap s) = (Some (heap s ! 0), h)"
    "set (heap s) = insert (heap s ! 0) (set h)" "heap s ! 0 \<notin> set h" "distinct h"
    "heap_ok (cur_key (readers s)) h" "heap s ! 0 < length (readers s)"
    "\<forall>ref\<in>set (heap s). cur_key (readers s) (heap s ! 0) \<le> cur_key (readers s) ref"
proof -
  let ?c = "compareRefs (readers s)"
  from ne obtain h where e: "extractMin ?c (heap s) = (Some (heap s ! 0), h)"
    and m: "mset (heap s) = mset h + {#heap s ! 0#}"
    using extractMin_Some [of "heap s" ?c] by auto
  have d: "distinct (heap s)" and ok: "heap_ok (cur_key (readers s)) (heap s)"
    and live: "\<forall>ref\<in>set (heap s). r_current (readers s ! ref) \<noteq> None"
    using inv by (auto simp: merge_inv_def)
  have s: "set (heap s) = insert (heap s ! 0) (set h)"
    using m by (metis set_mset_mset set_mset_add_mset_insert union_mset_add_mset_right add.right_neutral)
  have "distinct (heap s ! 0 # h)"
    using m d by (metis mset.simps(2) union_mset_add_mset_right add.right_neutral mset_eq_imp_distinct_iff)
  then have n: "heap s ! 0 \<notin> set h" "distinct h" by auto
  have "heap_ok (cur_key (readers s)) (snd (extractMin ?c (heap s)))"
    using agrees_live [OF live] ok by (rule extractMin_heap_ok)
  then have okh: "heap_ok (cur_key (readers s)) h" using e by simp
  have r: "heap s ! 0 < length (readers s)"
    using inv ne by (simp add: merge_inv_def)
  have mn: "\<forall>ref\<in>set (heap s). cur_key (readers s) (heap s ! 0) \<le> cur_key (readers s) ref"
    using heap_ok_min [OF ok] by blast
  show ?thesis using that [OF e s n okh r mn] .
qed

lemma merge_step_inv:
  assumes inv: "merge_inv s" and ne: "length (heap s) > 0"
  shows "merge_inv (merge_step s)"
proof -
  obtain h where
    e: "extractMin (compareRefs (readers s)) (heap s) = (Some (heap s ! 0), h)"
    and s: "set (heap s) = insert (heap s ! 0) (set h)" and n: "heap s ! 0 \<notin> set h" "distinct h"
    and okh: "heap_ok (cur_key (readers s)) h" and r: "heap s ! 0 < length (readers s)"
    and mn: "\<forall>ref\<in>set (heap s). cur_key (readers s) (heap s ! 0) \<le> cur_key (readers s) ref"
    by (rule extract_facts [OF inv ne])
  let ?r0 = "heap s ! 0"
  let ?rd = "readers s ! ?r0"
  have live: "\<forall>ref\<in>set h. ref < length (readers s) \<and> \<not> r_done (readers s ! ref)
                              \<and> r_current (readers s ! ref) \<noteq> None"
    using inv s by (simp add: merge_inv_def)
  have same: "\<And>r' ref. ref \<in> set h \<Longrightarrow> (readers s)[?r0 := r'] ! ref = readers s ! ref"
    using n by (metis nth_list_update_neq)
  have okh': "\<And>r'. heap_ok (cur_key ((readers s)[?r0 := r'])) h"
    using okh heap_ok_cong [of h "cur_key ((readers s)[?r0 := r'])" "cur_key (readers s)" for r']
      same by (simp add: cur_key_def)
  show ?thesis
  proof (cases "pending (r_reader ?rd)")
    case Nil
    obtain r' where st: "merge_step s = \<lparr>readers = (readers s)[?r0 := r'], heap = h,
                 writeStream = writeStream s @ [line_text (r_current ?rd)],
                 linesWritten = linesWritten s + 1\<rparr>"
      using e r Nil by (cases "broken (r_reader ?rd)") (simp_all add: merge_step_def iter_next_def Let_def)
    show ?thesis
      unfolding st merge_inv_def using n(2) live okh' [of r'] same [of _ r'] by simp
  next
    case (Cons l ls)
    let ?rs = "(readers s)[?r0 := ?rd\<lparr>r_reader := LineIter ls (broken (r_reader ?rd)),
                                      r_done := False, r_current := Some l\<rparr>]"
    have st: "merge_step s = \<lparr>readers = ?rs, heap = insert_heap (compareRefs ?rs) h ?r0,
                 writeStream = writeStream s @ [line_text (r_current ?rd)],
                 linesWritten = linesWritten s + 1\<rparr>"
      using e r Cons by (simp add: merge_step_def iter_next_def Let_def)
    have l0: "?rs ! ?r0 = ?rd\<lparr>r_reader := LineIter ls (broken (r_reader ?rd)),
                                      r_done := False, r_current := Some l\<rparr>"
      using r by simp
    have liv': "\<forall>ref\<in>insert ?r0 (set h). ref < length ?rs \<and> \<not> r_done (?rs ! ref)
                              \<and> r_current (?rs ! ref) \<noteq> None"
      using live same l0 r by auto
    then have "agrees (compareRefs ?rs) (cur_key ?rs) (insert ?r0 (set h))"
      by (intro agrees_live) blast
    then have "heap_ok (cur_key ?rs) (insert_heap (compareRefs ?rs) h ?r0)"
      using okh' by (rule insert_heap_ok)
    moreover have "mset (insert_heap (compareRefs ?rs) h ?r0) = mset (?r0 # h)"
      by (simp add: mset_insert_heap)
    then have "distinct (insert_heap (compareRefs ?rs) h ?r0)"
      "set (insert_heap (compareRefs ?rs) h ?r0) = insert ?r0 (set h)"
      using n by (metis distinct.simps(2) mset_eq_imp_distinct_iff, metis list.simps(15) mset_eq_setD)
    ultimately show ?thesis
      using st liv' by (simp add: merge_inv_def)
  qed
qed


lemma loop_reaches_inv:
  "loop_reaches s t \<Longrightarrow> merge_inv s \<Longrightarrow> merge_inv t"
  by (induction rule: loop_reaches.induct) (auto intro: merge_step_inv)

lemma initial_heap_inv:
  "merge_inv \<lparr>readers = rs, heap = initial_heap rs, writeStream = out, linesWritten = n\<rparr>"
proof -
  define f where "f = (\<lambda>ref h. if \<not> r_done (rs ! ref) \<and> r_current (rs ! ref) \<noteq> None
                    then insert_heap (compareRefs rs) h ref else h)"
  define H where "H k = fold f [0..<k] []" for k
  have H0: "H 0 = []" by (simp add: H_def)
  have HS: "\<And>k. H (Suc k) = f k (H k)" by (simp add: H_def)
  have "distinct (H k) \<and>
        (\<forall>ref\<in>set (H k). ref < k \<and> \<not> r_done (rs ! ref) \<and> r_current (rs ! ref) \<noteq> None) \<and>
        heap_ok (cur_key rs) (H k)" for k
  proof (induction k)
    case 0
    show ?case by (simp add: H0 heap_ok_def)
  next
    case (Suc k)
    then have IH: "distinct (H k)"
      "\<forall>ref\<in>set (H k). ref < k \<and> \<not> r_done (rs ! ref) \<and> r_current (rs ! ref) \<noteq> None"
      "heap_ok (cur_key rs) (H k)"
      by blast+
    show ?case
    proof (cases "\<not> r_done (rs ! k) \<and> r_current (rs ! k) \<noteq> None")
      case False
      then have "H (Suc k) = H k" by (auto simp: HS f_def)
      then show ?thesis using IH by (simp add: less_Suc_eq)
    next
      case True
      then have f: "H (Suc k) = insert_heap (compareRefs rs) (H k) k" by (simp add: HS f_def)
      have m: "mset (insert_heap (compareRefs rs) (H k) k) = mset (k # H k)"
        by (simp add: mset_insert_heap)
      have nk: "k \<notin> set (H k)" using IH(2) by auto
      have d: "distinct (insert_heap (compareRefs rs) (H k) k)"
        using m nk IH(1) by (metis distinct.simps(2) mset_eq_imp_distinct_iff)
      have st: "set (insert_heap (compareRefs rs) (H k) k) = insert k (set (H k))"
        using m by (metis list.simps(15) mset_eq_setD)
      have "agrees (compareRefs rs) (cur_key rs) (insert k (set (H k)))"
        using True IH(2) by (intro agrees_live) blast
      then have ok: "heap_ok (cur_key rs) (insert_heap (compareRefs rs) (H k) k)"
        using IH(3) by (rule insert_heap_ok)
      have "\<forall>ref\<in>insert k (set (H k)).
              ref < Suc k \<and> \<not> r_done (rs ! ref) \<and> r_current (rs ! ref) \<noteq> None"
        using True IH(2) by (metis insertE less_Suc_eq)
      then show ?thesis
        unfolding f st [symmetric] using d ok by blast
    qed
  qed
  note this [of "length rs"]
  moreover have "H (length rs) = initial_heap rs"
    unfolding H_def f_def initial_heap_def ..
  ultimately have "distinct (initial_heap rs) \<and>
        (\<forall>ref\<in>set (initial_heap rs). ref < length rs \<and> \<not> r_done (rs ! ref)
              \<and> r_current (rs ! ref) \<noteq> None) \<and>
        heap_ok (cur_key rs) (initial_heap rs)"
    by simp
  then show ?thesis
    unfolding merge_inv_def by simp
qed

lemma initial_state_inv: "merge_inv (initial_state chunks)"
  by (simp add: initial_state_def Let_def initial_heap_inv)

definition sorted_inv :: "merge_state \<Rightarrow> bool" where
  "sorted_inv s \<longleftrightarrow>
     sorted (writeStream s) \<and>
     (\<forall>x\<in>set (writeStream s). \<forall>ref\<in>set (heap s). x \<le> cur_key (readers s) ref) \<and>
     (\<forall>ref\<in>set (heap s). sorted (cur_key (readers s) ref # pending (r_reader (readers s ! ref))))"

lemma merge_step_sorted_inv:
  assumes inv: "merge_inv s" and so: "sorted_inv s" and ne: "length (heap s) > 0"
  shows "sorted_inv (merge_step s)"
proof -
  obtain h where
    e: "extractMin (compareRefs (readers s)) (heap s) = (Some (heap s ! 0), h)"
    and s: "set (heap s) = insert (heap s ! 0) (set h)" and n: "heap s ! 0 \<notin> set h" "distinct h"
    and okh: "heap_ok (cur_key (readers s)) h" and r: "heap s ! 0 < length (readers s)"
    and mn: "\<forall>ref\<in>set (heap s). cur_key (readers s) (heap s ! 0) \<le> cur_key (readers s) ref"
    by (rule extract_facts [OF inv ne])
  let ?r0 = "heap s ! 0"
  let ?rd = "readers s ! ?r0"
  let ?out = "writeStream s @ [line_text (r_current ?rd)]"
  have cur: "line_text (r_current ?rd) = cur_key (readers s) ?r0"
    using inv s by (auto simp: merge_inv_def line_text_def cur_key_def)
  have so1: "sorted (writeStream s)"
    and so2: "\<forall>x\<in>set (writeStream s). \<forall>ref\<in>set (heap s). x \<le> cur_key (readers s) ref"
    and so3: "\<forall>ref\<in>set (heap s). sorted (cur_key (readers s) ref # pending (r_reader (readers s ! ref)))"
    using so by (auto simp: sorted_inv_def)
  have out: "sorted ?out"
    using so1 so2 s cur by (simp add: sorted_append)
  have same: "\<And>r' ref. ref \<in> set h \<Longrightarrow> (readers s)[?r0 := r'] ! ref = readers s ! ref"
    using n by (metis nth_list_update_neq)
  have bound: "\<And>r'. \<forall>x\<in>set ?out. \<forall>ref\<in>set h. x \<le> cur_key ((readers s)[?r0 := r']) ref"
    using so2 mn s cur same by (auto simp: cur_key_def)
  have rest: "\<And>r'. \<forall>ref\<in>set h. sorted (cur_key ((readers s)[?r0 := r']) ref #
                                          pending (r_reader ((readers s)[?r0 := r'] ! ref)))"
    using so3 s same by (simp add: cur_key_def)
  show ?thesis
  proof (cases "pending (r_reader ?rd)")
    case Nil
    obtain r' where st: "merge_step s = \<lparr>readers = (readers s)[?r0 := r'], heap = h,
                 writeStream = ?out, linesWritten = linesWritten s + 1\<rparr>"
      using e r Nil by (cases "broken (r_reader ?rd)") (simp_all add: merge_step_def iter_next_def Let_def)
    show ?thesis
      unfolding st sorted_inv_def using out bound [of r'] rest [of r'] by simp
  next
    case (Cons l ls)
    let ?r' = "?rd\<lparr>r_reader := LineIter ls (broken (r_reader ?rd)),
                                      r_done := False, r_current := Some l\<rparr>"
    let ?rs = "(readers s)[?r0 := ?r']"
    have st: "merge_step s = \<lparr>readers = ?rs, heap = insert_heap (compareRefs ?rs) h ?r0,
                 writeStream = ?out, linesWritten = linesWritten s + 1\<rparr>"
      using e r Cons by (simp add: merge_step_def iter_next_def Let_def)
    have hs: "set (insert_heap (compareRefs ?rs) h ?r0) = insert ?r0 (set h)"
      using mset_insert_heap [of "compareRefs ?rs" h ?r0] by (metis list.simps(15) mset_eq_setD mset.simps(2) union_mset_add_mset_right add.right_neutral)
    have l0: "cur_key ?rs ?r0 = l" "pending (r_reader (?rs ! ?r0)) = ls"
      using r by (simp_all add: cur_key_def)
    have sl: "sorted (cur_key (readers s) ?r0 # l # ls)"
      using so3 s Cons by simp
    then have "sorted (l # ls)" "cur_key (readers s) ?r0 \<le> l" by simp_all
    moreover have "\<forall>x\<in>set ?out. x \<le> l"
      using so2 s cur \<open>cur_key (readers s) ?r0 \<le> l\<close> by auto
    ultimately show ?thesis
      unfolding st sorted_inv_def using out bound [of ?r'] rest [of ?r'] hs l0 by simp
  qed
qed

lemma loop_reaches_sorted_inv:
  "loop_reaches s t \<Longrightarrow> merge_inv s \<Longrightarrow> sorted_inv s \<Longrightarrow> sorted_inv t"
proof (induction rule: loop_reaches.induct)
  case (start s)
  then show ?case by simp
next
  case (iterate s t)
  then show ?case
    using loop_reaches_inv [of s t] merge_step_sorted_inv by blast
qed

lemma prime_sorted:
  assumes "sorted (pending it)"
  shows "r_current (prime (new_reader (p, it))) \<noteq> None \<Longrightarrow>
         sorted (the (r_current (prime (new_reader (p, it)))) #
                 pending (r_reader (prime (new_reader (p, it)))))"
  using assms
  by (cases "pending it") (auto simp: prime_def new_reader_def iter_next_def)

lemma initial_state_sorted_inv:
  assumes "\<forall>c\<in>set chunks. sorted (pending (snd c))"
  shows "sorted_inv (initial_state chunks)"
proof -
  define rs where "rs = map prime (map new_reader chunks)"
  have "merge_inv \<lparr>readers = rs, heap = initial_heap rs, writeStream = [], linesWritten = 0\<rparr>"
    by (rule initial_heap_inv)
  then have live: "\<forall>ref\<in>set (initial_heap rs). ref < length rs \<and> r_current (rs ! ref) \<noteq> None"
    unfolding merge_inv_def by simp
  have "sorted (cur_key rs ref # pending (r_reader (rs ! ref)))"
    if a: "ref < length rs" "r_current (rs ! ref) \<noteq> None" for ref
  proof -
    have rl: "ref < length chunks" using a by (simp add: rs_def)
    then have "chunks ! ref \<in> set chunks" by simp
    then have "sorted (pending (snd (chunks ! ref)))" using assms by blast
    moreover have "rs ! ref = prime (new_reader (fst (chunks ! ref), snd (chunks ! ref)))"
      using rl by (simp add: rs_def)
    ultimately show ?thesis
      using prime_sorted [of "snd (chunks ! ref)" "fst (chunks ! ref)"] a(2)
      by (simp add: cur_key_def)
  qed
  then have "\<forall>ref\<in>set (initial_heap rs). sorted (cur_key rs ref # pending (r_reader (rs ! ref)))"
    using live by blast
  then show ?thesis
    unfolding sorted_inv_def initial_state_def Let_def rs_def [symmetric] by simp
qed




subsection \<open>The lines written are the lines read\<close>

text \<open>
  The lines that the readers in the heap have yet to give: the current line of each and
  the lines its iterator has pending.
\<close>

definition lines_of_ref :: "reader_obj list \<Rightarrow> nat \<Rightarrow> js_string multiset" where
  "lines_of_ref rs ref = mset (cur_key rs ref # pending (r_reader (rs ! ref)))"

definition lines_left :: "merge_state \<Rightarrow> js_string multiset" where
  "lines_left s = sum_mset (image_mset (lines_of_ref (readers s)) (mset (heap s)))"

lemma merge_step_lines:
  assumes inv: "merge_inv s" and ne: "length (heap s) > 0"
  shows "mset (writeStream (merge_step s)) + lines_left (merge_step s) =
         mset (writeStream s) + lines_left s"
proof -
  obtain h where
    e: "extractMin (compareRefs (readers s)) (heap s) = (Some (heap s ! 0), h)"
    and s: "set (heap s) = insert (heap s ! 0) (set h)" and n: "heap s ! 0 \<notin> set h" "distinct h"
    and okh: "heap_ok (cur_key (readers s)) h" and r: "heap s ! 0 < length (readers s)"
    and mn: "\<forall>ref\<in>set (heap s). cur_key (readers s) (heap s ! 0) \<le> cur_key (readers s) ref"
    by (rule extract_facts [OF inv ne])
  let ?r0 = "heap s ! 0"
  let ?rd = "readers s ! ?r0"
  have ms: "mset (heap s) = mset h + {#?r0#}"
    using extractMin_Some [of "heap s" "compareRefs (readers s)"] ne e by auto
  have cur: "line_text (r_current ?rd) = cur_key (readers s) ?r0"
    using inv s by (auto simp: merge_inv_def line_text_def cur_key_def)
  have same: "lines_of_ref ((readers s)[?r0 := r']) ref = lines_of_ref (readers s) ref"
    if "ref \<in> set h" for r' ref
  proof -
    have "ref \<noteq> ?r0" using n that by auto
    then show ?thesis by (simp add: lines_of_ref_def cur_key_def)
  qed
  have sumh: "sum_mset (image_mset (lines_of_ref ((readers s)[?r0 := r'])) (mset h)) =
              sum_mset (image_mset (lines_of_ref (readers s)) (mset h))" for r'
    using same by (intro arg_cong [where f = sum_mset] image_mset_cong) simp
  have left: "lines_left s =
      sum_mset (image_mset (lines_of_ref (readers s)) (mset h)) + lines_of_ref (readers s) ?r0"
    by (simp add: lines_left_def ms)
  show ?thesis
  proof (cases "pending (r_reader ?rd)")
    case Nil
    obtain r' where st: "merge_step s = \<lparr>readers = (readers s)[?r0 := r'], heap = h,
                 writeStream = writeStream s @ [line_text (r_current ?rd)],
                 linesWritten = linesWritten s + 1\<rparr>"
      using e r Nil by (cases "broken (r_reader ?rd)") (simp_all add: merge_step_def iter_next_def Let_def)
    have "lines_of_ref (readers s) ?r0 = {#cur_key (readers s) ?r0#}"
      using Nil by (simp add: lines_of_ref_def)
    then show ?thesis
      unfolding st left by (simp add: lines_left_def sumh cur)
  next
    case (Cons l ls)
    let ?r' = "?rd\<lparr>r_reader := LineIter ls (broken (r_reader ?rd)),
                                      r_done := False, r_current := Some l\<rparr>"
    let ?rs = "(readers s)[?r0 := ?r']"
    have st: "merge_step s = \<lparr>readers = ?rs, heap = insert_heap (compareRefs ?rs) h ?r0,
                 writeStream = writeStream s @ [line_text (r_current ?rd)],
                 linesWritten = linesWritten s + 1\<rparr>"
      using e r Cons by (simp add: merge_step_def iter_next_def Let_def)
    have new: "lines_of_ref ?rs ?r0 = mset (l # ls)"
      using r by (simp add: lines_of_ref_def cur_key_def)
    have old: "lines_of_ref (readers s) ?r0 = {#cur_key (readers s) ?r0#} + mset (l # ls)"
      using Cons by (simp add: lines_of_ref_def)
    have "lines_left (merge_step s) =
        sum_mset (image_mset (lines_of_ref ?rs) (mset h)) + lines_of_ref ?rs ?r0"
      unfolding st by (simp add: lines_left_def mset_insert_heap)
    then show ?thesis
      unfolding left old new sumh st by (simp add: cur)
  qed
qed

lemma loop_reaches_lines:
  "loop_reaches s t \<Longrightarrow> merge_inv s \<Longrightarrow>
   mset (writeStream t) + lines_left t = mset (writeStream s) + lines_left s"
proof (induction rule: loop_reaches.induct)
  case (start s)
  show ?case by simp
next
  case (iterate s t)
  then show ?case
    using loop_reaches_inv [of s t] merge_step_lines [of t] by simp
qed

text \<open>The heap before the loop holds the readers that have a line, each once.\<close>

lemma mset_initial_heap:
  "mset (initial_heap rs) =
   mset (filter (\<lambda>ref. \<not> r_done (rs ! ref) \<and> r_current (rs ! ref) \<noteq> None) [0..<length rs])"
proof -
  define f where "f = (\<lambda>ref h. if \<not> r_done (rs ! ref) \<and> r_current (rs ! ref) \<noteq> None
                    then insert_heap (compareRefs rs) h ref else h)"
  define H where "H k = fold f [0..<k] []" for k
  have H0: "H 0 = []" by (simp add: H_def)
  have HS: "\<And>k. H (Suc k) = f k (H k)" by (simp add: H_def)
  have "mset (H k) =
        mset (filter (\<lambda>ref. \<not> r_done (rs ! ref) \<and> r_current (rs ! ref) \<noteq> None) [0..<k])" for k
  proof (induction k)
    case 0
    show ?case by (simp add: H0)
  next
    case (Suc k)
    then show ?case
      by (auto simp: HS f_def mset_insert_heap)
  qed
  from this [of "length rs"] show ?thesis
    unfolding H_def f_def initial_heap_def .
qed

lemma prime_lines:
  "(if \<not> r_done (prime (new_reader c)) \<and> r_current (prime (new_reader c)) \<noteq> None
    then mset (the (r_current (prime (new_reader c))) # pending (r_reader (prime (new_reader c))))
    else {#}) = mset (pending (snd c))"
  by (cases "pending (snd c)"; cases "broken (snd c)")
     (simp_all add: prime_def new_reader_def iter_next_def)

lemma lines_left_initial:
  "lines_left (initial_state chunks) = mset (concat (map (\<lambda>c. pending (snd c)) chunks))"
proof -
  define rs where "rs = map prime (map new_reader chunks)"
  define live where "live = (\<lambda>ref. \<not> r_done (rs ! ref) \<and> r_current (rs ! ref) \<noteq> None)"
  have "lines_left (initial_state chunks) =
        sum_mset (image_mset (lines_of_ref rs) (mset (filter live [0..<length rs])))"
    unfolding lines_left_def initial_state_def Let_def rs_def [symmetric] live_def
    by (simp add: mset_initial_heap)
  also have "\<dots> = sum_list (map (lines_of_ref rs) (filter live [0..<length rs]))"
    by (metis mset_map sum_mset_sum_list)
  also have "\<dots> = sum_list (map (\<lambda>ref. if live ref then lines_of_ref rs ref else {#}) [0..<length rs])"
    by (induction "[0..<length rs]" arbitrary: rs) (simp_all add: sum_list_map_filter')
  finally have 1: "lines_left (initial_state chunks) =
      sum_list (map (\<lambda>ref. if live ref then lines_of_ref rs ref else {#}) [0..<length rs])" .
  have "(if live ref then lines_of_ref rs ref else {#}) = mset (pending (snd (chunks ! ref)))"
    if "ref < length chunks" for ref
    using that prime_lines [of "chunks ! ref"]
    by (auto simp: live_def rs_def lines_of_ref_def cur_key_def split: if_splits)
  then have "map (\<lambda>ref. if live ref then lines_of_ref rs ref else {#}) [0..<length rs] =
             map (\<lambda>ref. mset (pending (snd (chunks ! ref)))) [0..<length chunks]"
    by (simp add: rs_def)
  also have "\<dots> = map (\<lambda>c. mset (pending (snd c))) chunks"
    by (rule nth_equalityI) simp_all
  finally show ?thesis
    unfolding 1 by (simp add: mset_concat comp_def)
qed

lemma mset_merge_readers:
  "mset (writeStream (merge_readers chunks)) = mset (concat (map (\<lambda>c. pending (snd c)) chunks))"
proof -
  have "loop_reaches (initial_state chunks) (merge_readers chunks)"
    unfolding merge_readers_def by (rule loop_reaches_final)
  then have "mset (writeStream (merge_readers chunks)) + lines_left (merge_readers chunks) =
        mset (writeStream (initial_state chunks)) + lines_left (initial_state chunks)"
    using initial_state_inv by (rule loop_reaches_lines)
  moreover have "lines_left (merge_readers chunks) = {#}"
    by (simp add: lines_left_def merge_readers_def heap_final)
  moreover have "writeStream (initial_state chunks) = []"
    by (simp add: initial_state_def Let_def)
  ultimately show ?thesis
    by (simp add: lines_left_initial)
qed

subsection \<open>Files and the merge of chunk files\<close>

text \<open>
  The file system maps a path to the lines of the file there. A line is written with a
  newline after it and read back by \<open>readline\<close> without it. \<open>fs.access\<close> succeeds on
  the paths that have a file. A reader delivers the lines its file had when the reader
  was created. \<open>unlink\<close> fails on a path with no file, which the merge only logs.
  An asynchronous function that ends without \<open>return\<close> resolves with \<open>undefined\<close>.
\<close>

type_synonym filesystem = "js_string \<rightharpoonup> js_string list"

datatype error = Error js_string | ENOENT js_string | TypeError

datatype js_value = Undefined | Number nat

definition unlink_each :: "js_string list \<Rightarrow> filesystem \<Rightarrow> filesystem" where
  "unlink_each paths fs = fold (\<lambda>p f. f(p := None)) paths fs"

definition existing_chunks :: "filesystem \<Rightarrow> js_string list \<Rightarrow> js_string list" where
  "existing_chunks fs sortedChunks = filter (\<lambda>chunkPath. fs chunkPath \<noteq> None) sortedChunks"

definition chunk_readers :: "filesystem \<Rightarrow> js_string list \<Rightarrow> (js_string \<times> line_iter) list" where
  "chunk_readers fs existingChunks =
     map (\<lambda>chunkPath. (chunkPath, LineIter (the (fs chunkPath)) False)) existingChunks"

definition kWayMerge_state :: "filesystem \<Rightarrow> js_string list \<Rightarrow> merge_state" where
  "kWayMerge_state fs sortedChunks = merge_readers (chunk_readers fs (existing_chunks fs sortedChunks))"

definition kWayMerge ::
  "filesystem \<Rightarrow> js_string list \<Rightarrow> js_string \<Rightarrow> (error + js_value) \<times> filesystem" where
  "kWayMerge fs sortedChunks outputFile =
     (let existingChunks = existing_chunks fs sortedChunks
      in if length existingChunks = 0
         then (Inl (Error (js ''no valid chunk files found for merging'')), fs)
         else if length (chunk_readers fs existingChunks) = 0
         then (Inl (Error (js ''could not create readers for any chunk files'')), fs)
         else let s = kWayMerge_state fs sortedChunks;
                  fs1 = fs(outputFile \<mapsto> writeStream s)
              in (Inr Undefined, unlink_each existingChunks fs1))"

definition ex_fs :: filesystem where
  "ex_fs = [js ''c0.sorted.txt'' \<mapsto> [js ''a'', js ''d''],
            js ''c1.sorted.txt'' \<mapsto> [js ''b'', js ''e''],
            js ''c2.sorted.txt'' \<mapsto> [js ''c'', js ''f'']]"

definition ex_paths :: "js_string list" where
  "ex_paths = [js ''c0.sorted.txt'', js ''c1.sorted.txt'', js ''c2.sorted.txt'']"


lemma ex_readers: "chunk_readers ex_fs (existing_chunks ex_fs ex_paths) =
   [(js ''c0.sorted.txt'', LineIter [js ''a'', js ''d''] False),
    (js ''c1.sorted.txt'', LineIter [js ''b'', js ''e''] False),
    (js ''c2.sorted.txt'', LineIter [js ''c'', js ''f''] False)]"
  by (simp add: chunk_readers_def existing_chunks_def ex_fs_def ex_paths_def js_def)

lemma ex_written:
  "writeStream (kWayMerge_state ex_fs ex_paths) =
     [js ''a'', js ''b'', js ''c'', js ''d'', js ''e'', js ''f'']"
  unfolding kWayMerge_state_def ex_readers by code_simp

lemma merge_readers_sorted:
  assumes "\<forall>c\<in>set chunks. sorted (pending (snd c))"
  shows "sorted (writeStream (merge_readers chunks))"
proof -
  have "sorted_inv (merge_readers chunks)"
    unfolding merge_readers_def
    using loop_reaches_final initial_state_inv initial_state_sorted_inv [OF assms]
    by (rule loop_reaches_sorted_inv)
  then show ?thesis by (simp add: sorted_inv_def)
qed

subsection \<open>The order of the specification\<close>

text \<open>
  The specification orders lines by their code points, which is also the order of
  their UTF-8 bytes. \<open>code_points\<close> decodes UTF-16: a high surrogate followed by a low
  surrogate is one code point from \<open>0x10000\<close> on, any other code unit is its own code
  point. The two orders agree on lines whose code units are all below \<open>0xD800\<close>.
\<close>

fun code_points :: "js_string \<Rightarrow> nat list" where
  "code_points [] = []"
| "code_points [c] = [unat c]"
| "code_points (c # d # cs) =
     (if 0xD800 \<le> c \<and> c \<le> 0xDBFF \<and> 0xDC00 \<le> d \<and> d \<le> 0xDFFF
      then (0x10000 + (unat c - 0xD800) * 0x400 + (unat d - 0xDC00)) # code_points cs
      else unat c # code_points (d # cs))"

lemma code_points_low: "\<forall>c\<in>set l. c < 0xD800 \<Longrightarrow> code_points l = map unat l"
  by (induction l rule: code_points.induct) auto

lemma map_unat_le: "map unat a \<le> map unat b \<longleftrightarrow> a \<le> b" for a b :: "'a::len word list"
proof (induction a arbitrary: b)
  case Nil
  show ?case by simp
next
  case (Cons x a)
  show ?case
  proof (cases b)
    case Nil
    then show ?thesis by simp
  next
    case (Cons y b')
    then show ?thesis
      using Cons.IH [of b'] by (simp add: word_less_nat_alt word_unat_eq_iff)
  qed
qed

lemma sorted_code_points_low:
  assumes "\<forall>l\<in>set ls. \<forall>c\<in>set l. c < 0xD800"
  shows "sorted (map code_points ls) \<longleftrightarrow> sorted ls"
proof -
  have "map code_points ls = map (map unat) ls"
    using assms by (simp add: code_points_low)
  then have "sorted (map code_points ls) \<longleftrightarrow> sorted (map (map unat) ls)"
    by (simp only:)
  also have "\<dots> \<longleftrightarrow> sorted ls"
    by (simp add: sorted_map map_unat_le)
  finally show ?thesis .
qed

lemma set_kWayMerge_state:
  "set (writeStream (kWayMerge_state fs sortedChunks)) =
   (\<Union>chunkPath\<in>set (existing_chunks fs sortedChunks). set (the (fs chunkPath)))"
proof -
  have "mset (writeStream (kWayMerge_state fs sortedChunks)) =
        mset (concat (map (\<lambda>c. pending (snd c)) (chunk_readers fs (existing_chunks fs sortedChunks))))"
    unfolding kWayMerge_state_def by (rule mset_merge_readers)
  then have "set (writeStream (kWayMerge_state fs sortedChunks)) =
        set (concat (map (\<lambda>c. pending (snd c)) (chunk_readers fs (existing_chunks fs sortedChunks))))"
    by (rule mset_eq_setD)
  then show ?thesis
    by (simp add: chunk_readers_def comp_def)
qed

definition ex_fs_astral :: filesystem where
  "ex_fs_astral = [js ''c0.sorted.txt'' \<mapsto> [[0xFF5E]], js ''c1.sorted.txt'' \<mapsto> [[0xD83D, 0xDE00]]]"

definition ex_paths_astral :: "js_string list" where
  "ex_paths_astral = [js ''c0.sorted.txt'', js ''c1.sorted.txt'']"

lemma ex_readers_astral: "chunk_readers ex_fs_astral (existing_chunks ex_fs_astral ex_paths_astral) =
   [(js ''c0.sorted.txt'', LineIter [[0xFF5E]] False),
    (js ''c1.sorted.txt'', LineIter [[0xD83D, 0xDE00]] False)]"
  by (simp add: chunk_readers_def existing_chunks_def ex_fs_astral_def ex_paths_astral_def js_def)

lemma ex_written_astral:
  "writeStream (kWayMerge_state ex_fs_astral ex_paths_astral) = [[0xD83D, 0xDE00], [0xFF5E]]"
  unfolding kWayMerge_state_def ex_readers_astral by code_simp

text \<open>
  C1. The claim fails in the order of code points: the chunks \<open>U+FF5E\<close> and
  \<open>U+1F600\<close>, one line each, are merged into \<open>U+1F600\<close>, \<open>U+FF5E\<close>, because the
  first code unit of the surrogate pair of \<open>U+1F600\<close>, \<open>0xD83D\<close>, is below \<open>0xFF5E\<close>.
\<close>

theorem kWayMerge_output_sorted_counterexample:
  "ex_fs_astral (js ''c0.sorted.txt'') = Some [[0xFF5E]] \<and> sorted (map code_points [[0xFF5E]]) \<and>
   ex_fs_astral (js ''c1.sorted.txt'') = Some [[0xD83D, 0xDE00]] \<and>
   sorted (map code_points [[0xD83D, 0xDE00]]) \<and>
   writeStream (kWayMerge_state ex_fs_astral ex_paths_astral) = [[0xD83D, 0xDE00], [0xFF5E]] \<and>
   map code_points [[0xD83D, 0xDE00], [0xFF5E]] = [[0x1F600], [0xFF5E]] \<and>
   \<not> sorted (map code_points (writeStream (kWayMerge_state ex_fs_astral ex_paths_astral)))"
  unfolding ex_written_astral by (simp add: ex_fs_astral_def js_def)

text \<open>
  C1, amended. When every chunk file that the merge can read holds a non-decreasing
  sequence of lines in the order in which JavaScript compares strings, code unit by
  code unit, the sequence of lines that the k-way merge writes is non-decreasing in that
  order. When the chunk files are non-decreasing in the order of code points and no
  line of theirs has a code unit from \<open>0xD800\<close> on, the lines written are non-decreasing
  in the order of code points. The three chunks \<open>a d\<close>, \<open>b e\<close> and \<open>c f\<close> give
  \<open>a b c d e f\<close>.
\<close>

theorem kWayMerge_output_sorted:
  "((\<forall>chunkPath\<in>set sortedChunks. \<forall>ls. fs chunkPath = Some ls \<longrightarrow> sorted ls) \<longrightarrow>
      sorted (writeStream (kWayMerge_state fs sortedChunks))) \<and>
   ((\<forall>chunkPath\<in>set sortedChunks. \<forall>ls. fs chunkPath = Some ls \<longrightarrow>
        sorted (map code_points ls) \<and> (\<forall>l\<in>set ls. \<forall>c\<in>set l. c < 0xD800)) \<longrightarrow>
      sorted (map code_points (writeStream (kWayMerge_state fs sortedChunks)))) \<and>
   writeStream (kWayMerge_state ex_fs ex_paths) =
     [js ''a'', js ''b'', js ''c'', js ''d'', js ''e'', js ''f'']"
proof (intro conjI impI)
  assume a: "\<forall>chunkPath\<in>set sortedChunks. \<forall>ls. fs chunkPath = Some ls \<longrightarrow> sorted ls"
  have "\<forall>c\<in>set (chunk_readers fs (existing_chunks fs sortedChunks)). sorted (pending (snd c))"
    using a by (auto simp: chunk_readers_def existing_chunks_def)
  then show "sorted (writeStream (kWayMerge_state fs sortedChunks))"
    unfolding kWayMerge_state_def by (rule merge_readers_sorted)
next
  assume a: "\<forall>chunkPath\<in>set sortedChunks. \<forall>ls. fs chunkPath = Some ls \<longrightarrow>
        sorted (map code_points ls) \<and> (\<forall>l\<in>set ls. \<forall>c\<in>set l. c < 0xD800)"
  have low: "\<forall>l\<in>set (writeStream (kWayMerge_state fs sortedChunks)). \<forall>c\<in>set l. c < 0xD800"
    unfolding set_kWayMerge_state using a by (auto simp: existing_chunks_def)
  have "sorted ls" if "chunkPath \<in> set sortedChunks" "fs chunkPath = Some ls" for chunkPath ls
  proof -
    have "sorted (map code_points ls)" "\<forall>l\<in>set ls. \<forall>c\<in>set l. c < 0xD800"
      using a that by blast+
    then show ?thesis using sorted_code_points_low by blast
  qed
  then have "\<forall>c\<in>set (chunk_readers fs (existing_chunks fs sortedChunks)). sorted (pending (snd c))"
    by (auto simp: chunk_readers_def existing_chunks_def)
  then have "sorted (writeStream (kWayMerge_state fs sortedChunks))"
    unfolding kWayMerge_state_def by (rule merge_readers_sorted)
  then show "sorted (map code_points (writeStream (kWayMerge_state fs sortedChunks)))"
    using sorted_code_points_low [OF low] by simp
next
  show "writeStream (kWayMerge_state ex_fs ex_paths) =
     [js ''a'', js ''b'', js ''c'', js ''d'', js ''e'', js ''f'']"
    by (rule ex_written)
qed

theorem kWayMerge_output_sorted_witness:
  "ex_fs (js ''c0.sorted.txt'') = Some [js ''a'', js ''d''] \<and> sorted [js ''a'', js ''d''] \<and>
   ex_fs (js ''c1.sorted.txt'') = Some [js ''b'', js ''e''] \<and> sorted [js ''b'', js ''e''] \<and>
   ex_fs (js ''c2.sorted.txt'') = Some [js ''c'', js ''f''] \<and> sorted [js ''c'', js ''f''] \<and>
   sorted (writeStream (kWayMerge_state ex_fs ex_paths)) \<and>
   sorted (map code_points [js ''a'', js ''d'']) \<and> sorted (map code_points [js ''b'', js ''e'']) \<and>
   sorted (map code_points [js ''c'', js ''f'']) \<and>
   sorted (map code_points (writeStream (kWayMerge_state ex_fs ex_paths)))"
proof -
  have h: "\<forall>chunkPath\<in>set ex_paths. \<forall>ls. ex_fs chunkPath = Some ls \<longrightarrow> sorted ls"
    by (simp add: ex_paths_def ex_fs_def js_def)
  have h2: "\<forall>chunkPath\<in>set ex_paths. \<forall>ls. ex_fs chunkPath = Some ls \<longrightarrow>
        sorted (map code_points ls) \<and> (\<forall>l\<in>set ls. \<forall>c\<in>set l. c < 0xD800)"
    by (simp add: ex_paths_def ex_fs_def js_def)
  have "sorted (writeStream (kWayMerge_state ex_fs ex_paths))"
    using h kWayMerge_output_sorted [of ex_paths ex_fs] by blast
  moreover have "sorted (map code_points (writeStream (kWayMerge_state ex_fs ex_paths)))"
    using h2 kWayMerge_output_sorted [of ex_paths ex_fs] by blast
  ultimately show ?thesis
    by (simp add: ex_fs_def js_def)
qed

lemma kWayMerge_output_file:
  assumes "kWayMerge fs sortedChunks outputFile = (Inr v, fs')" "outputFile \<notin> set sortedChunks"
  shows "fs' outputFile = Some (writeStream (kWayMerge_state fs sortedChunks))"
proof -
  have "\<And>ps f. outputFile \<notin> set ps \<Longrightarrow> unlink_each ps f outputFile = f outputFile"
    unfolding unlink_each_def
  proof -
    fix ps :: "js_string list" and f :: filesystem
    show "outputFile \<notin> set ps \<Longrightarrow> fold (\<lambda>p f. f(p := None)) ps f outputFile = f outputFile"
      by (induction ps arbitrary: f) auto
  qed
  moreover have "outputFile \<notin> set (existing_chunks fs sortedChunks)"
    using assms(2) by (simp add: existing_chunks_def)
  ultimately show ?thesis
    using assms(1) by (auto simp: kWayMerge_def Let_def split: if_splits)
qed

subsection \<open>Exhausted readers stay out of the heap\<close>









section \<open>sorter.js and sorter-worker.js: sorting one chunk\<close>

subsection \<open>Strings\<close>

text \<open>
  \<open>chunkPath.replace(".txt", ".sorted.txt")\<close>: with a string as its pattern,
  \<open>String.prototype.replace\<close> replaces the first occurrence only, and a string without
  that occurrence is returned as it is. The replacement here has no \<open>$\<close> pattern.
\<close>

definition starts_with :: "js_string \<Rightarrow> js_string \<Rightarrow> bool" where
  "starts_with pat s \<longleftrightarrow> take (length pat) s = pat"

fun replace_first :: "js_string \<Rightarrow> js_string \<Rightarrow> js_string \<Rightarrow> js_string" where
  "replace_first pat rep [] = (if pat = [] then rep else [])"
| "replace_first pat rep (c # cs) =
     (if starts_with pat (c # cs) then rep @ drop (length pat) (c # cs)
      else c # replace_first pat rep cs)"

definition sorted_name :: "js_string \<Rightarrow> js_string" where
  "sorted_name chunkPath = replace_first (js ''.txt'') (js ''.sorted.txt'') chunkPath"

text \<open>
  \<open>String.prototype.trim\<close> removes the white space and line terminator code units of
  ECMAScript from both ends.
\<close>

definition is_white_space :: "16 word \<Rightarrow> bool" where
  "is_white_space c \<longleftrightarrow>
     c \<in> {0x9, 0xA, 0xB, 0xC, 0xD, 0x20, 0xA0, 0x1680, 0x2028, 0x2029, 0x202F, 0x205F,
          0x3000, 0xFEFF} \<or> (0x2000 \<le> c \<and> c \<le> 0x200A)"

definition trim :: "js_string \<Rightarrow> js_string" where
  "trim s = rev (dropWhile is_white_space (rev (dropWhile is_white_space s)))"

text \<open>
  The text of a file whose lines are each followed by a newline, \<open>split("\n")\<close>,
  \<open>join("\n")\<close>, and the lines of a text written with newlines only.
\<close>

definition newline :: "16 word" where
  "newline = 0xA"

definition file_text :: "js_string list \<Rightarrow> js_string" where
  "file_text ls = concat (map (\<lambda>l. l @ [newline]) ls)"

fun split_newline :: "js_string \<Rightarrow> js_string list" where
  "split_newline [] = [[]]"
| "split_newline (c # cs) =
     (if c = newline then [] # split_newline cs
      else (case split_newline cs of [] \<Rightarrow> [[c]] | l # ls \<Rightarrow> (c # l) # ls))"

fun join_newline :: "js_string list \<Rightarrow> js_string" where
  "join_newline [] = []"
| "join_newline [l] = l"
| "join_newline (l # ls) = l @ [newline] @ join_newline ls"

definition text_lines :: "js_string \<Rightarrow> js_string list" where
  "text_lines t = (let ps = split_newline t in if last ps = [] then butlast ps else ps)"

subsection \<open>Errors\<close>

definition message :: "error \<Rightarrow> js_string" where
  "message e =
     (case e of
        Error m \<Rightarrow> m
      | ENOENT p \<Rightarrow> js ''ENOENT: no such file or directory, open '' @ [0x27] @ p @ [0x27]
      | TypeError \<Rightarrow> js ''TypeError'')"

subsection \<open>The two chunk sorters\<close>

text \<open>
  \<open>Array.prototype.sort\<close> with a comparison function that is consistent with a total
  order returns the elements in that order; equal strings are indistinguishable, so the
  result is the one sorted arrangement of the lines.
\<close>

definition sortLines :: "js_string list \<Rightarrow> js_string list" where
  "sortLines lines = sort lines"

text \<open>
  Opening a file for writing creates it when the directory that the path puts it in
  exists, and fails with \<open>ENOENT\<close> otherwise. The directory of a path is the text before
  its last \<open>/\<close>; a path without one, or with nothing before it, names a file in the
  working directory or in the root, which exist. \<open>dirs\<close> lists the other directories
  that exist. The sorted chunk is the one file of the program whose directory can be
  another one than that of a file the program has read or written before: the first
  \<open>.txt\<close> of the chunk path may be part of a directory name.
\<close>

definition parent_dir :: "js_string \<Rightarrow> js_string" where
  "parent_dir p = rev (tl (dropWhile (\<lambda>c. c \<noteq> 0x2F) (rev p)))"

definition can_create :: "js_string list \<Rightarrow> js_string \<Rightarrow> bool" where
  "can_create dirs p \<longleftrightarrow> parent_dir p = [] \<or> parent_dir p \<in> set dirs"

text \<open>
  \<open>Sorter.sortChunk\<close>, run in the main thread. When the write stream cannot open its
  file it emits \<open>error\<close>; the stream has no listener for it, so Node.js throws the error
  as an uncaught exception and the process ends there, with nothing written and the
  chunk still in place. The model returns that error.
\<close>

definition Sorter_sortChunk ::
  "js_string list \<Rightarrow> filesystem \<Rightarrow> js_string \<Rightarrow> (error + js_string) \<times> filesystem" where
  "Sorter_sortChunk dirs fs chunkPath =
     (case fs chunkPath of
        None \<Rightarrow> (Inl (ENOENT chunkPath), fs)
      | Some lines \<Rightarrow>
          let sortedLines = sortLines lines;
              sortedChunkPath = sorted_name chunkPath
          in if can_create dirs sortedChunkPath
             then let fs1 = fs(sortedChunkPath \<mapsto> sortedLines);
                      fs2 = fs1(chunkPath := None)
                  in (Inr sortedChunkPath, fs2)
             else (Inl (ENOENT sortedChunkPath), fs))"

text \<open>
  \<open>sortChunk\<close> of \<open>sorter-worker.js\<close>, run in a worker thread. An error of
  \<open>readFileSync\<close> or \<open>writeFileSync\<close> is caught and thrown again with the prefix
  \<open>error in worker:\<close>.
\<close>

definition worker_sortChunk ::
  "js_string list \<Rightarrow> filesystem \<Rightarrow> js_string \<Rightarrow> (error + js_string) \<times> filesystem" where
  "worker_sortChunk dirs fs chunkPath =
     (case fs chunkPath of
        None \<Rightarrow> (Inl (Error (js ''error in worker: '' @ message (ENOENT chunkPath))), fs)
      | Some content \<Rightarrow>
          let data = file_text content;
              lines = split_newline data;
              filteredLines = filter (\<lambda>line. length (trim line) > 0) lines;
              sortedLines = sort filteredLines;
              sortedChunkPath = sorted_name chunkPath
          in if can_create dirs sortedChunkPath
             then let fs1 = fs(sortedChunkPath \<mapsto> text_lines (join_newline sortedLines @ [newline]));
                      fs2 = fs1(chunkPath := None)
                  in (Inr sortedChunkPath, fs2)
             else (Inl (Error (js ''error in worker: '' @ message (ENOENT sortedChunkPath))), fs))"

subsection \<open>Where the sorted chunk goes\<close>









subsection \<open>The directory of the sorted chunk\<close>




subsection \<open>The lines that the worker writes\<close>









definition ex_chunk_fs :: "js_string \<Rightarrow> filesystem" where
  "ex_chunk_fs chunkPath = [chunkPath \<mapsto> [js ''b'', [], js ''  '', js ''a'']]"



subsection \<open>Blank lines\<close>

text \<open>
  C5. Of the two chunk sorters only the one of \<open>sorter-worker.js\<close> drops the lines that
  are empty after trimming. On the chunk \<open>b\<close>, an empty line, a line of two spaces, \<open>a\<close>,
  \<open>Sorter.sortChunk\<close> writes all four lines in order, and the worker writes \<open>a b\<close>.
  The chunk \<open>c.txt\<close> is in the working directory, and so is its sorted chunk.
\<close>

theorem sortChunk_blank_lines:
  "snd (Sorter_sortChunk [] (ex_chunk_fs (js ''c.txt'')) (js ''c.txt'')) (js ''c.sorted.txt'')
     = Some [[], js ''  '', js ''a'', js ''b''] \<and>
   snd (worker_sortChunk [] (ex_chunk_fs (js ''c.txt'')) (js ''c.txt'')) (js ''c.sorted.txt'')
     = Some [js ''a'', js ''b'']"
  by code_simp


section \<open>splitter.js: splitting the input into chunks\<close>

subsection \<open>Library functions\<close>

text \<open>
  What the program takes from Node.js and the machine it runs on is gathered in a record
  that the operations receive: \<open>path.join\<close> and \<open>path.dirname\<close>; \<open>fs.readdir\<close>,
  the names of the files in a directory; the directories that exist, apart from the
  working directory and the root; \<open>process.cwd()\<close>; the number of entries of
  \<open>os.cpus()\<close>; and the pool of worker threads, whose outcome (the promise of the
  second branch of \<open>sortChunks\<close> and the files the workers leave) depends on the timing
  of the workers. \<open>posix\<close> is the instance of the examples: its \<open>path_join\<close> is right
  for directory names in which \<open>path.join\<close> has nothing to normalise, and the examples
  neither clean up nor start workers, so that its directory listing and its pool are
  never asked. Its one directory is the temp directory of the examples.
\<close>

record node =
  path_join :: "js_string \<Rightarrow> js_string \<Rightarrow> js_string"
  path_dirname :: "js_string \<Rightarrow> js_string"
  readdir :: "filesystem \<Rightarrow> js_string \<Rightarrow> js_string list"
  directories :: "js_string list"
  cwd :: js_string
  cpus :: nat
  worker_pool :: "nat \<Rightarrow> js_string list \<Rightarrow> filesystem \<Rightarrow> (error + js_string list) \<times> filesystem"

definition posix :: node where
  "posix = \<lparr>path_join = (\<lambda>dir name. dir @ js ''/'' @ name),
            path_dirname = (\<lambda>p. rev (tl (dropWhile (\<lambda>c. c \<noteq> 0x2F) (rev p)))),
            readdir = (\<lambda>fs dir. []),
            directories = [js ''t''],
            cwd = js ''/work'',
            cpus = 1,
            worker_pool = (\<lambda>maxWorkers chunkList fs. (Inl (Error (js ''no workers'')), fs))\<rparr>"

text \<open>\<open>String(n)\<close> of a non-negative integer is its decimal numeral.\<close>

definition digit :: "nat \<Rightarrow> 16 word" where
  "digit d = 0x30 + of_nat d"

function String_nat :: "nat \<Rightarrow> js_string" where
  "String_nat n = (if n < 10 then [digit n] else String_nat (n div 10) @ [digit (n mod 10)])"
  by pat_completeness auto
termination
  by (relation "measure id") auto

declare String_nat.simps [simp del]

definition padStart :: "nat \<Rightarrow> 16 word \<Rightarrow> js_string \<Rightarrow> js_string" where
  "padStart targetLength c s = replicate (targetLength - length s) c @ s"

text \<open>
  \<open>Buffer.byteLength\<close> of a string is the length of its UTF-8 encoding: one byte for a
  code unit below \<open>0x80\<close>, two below \<open>0x800\<close>, four for a surrogate pair, and three for
  anything else (a lone surrogate is encoded as U+FFFD).
\<close>

definition unit_bytes :: "16 word \<Rightarrow> nat" where
  "unit_bytes c = (if c < 0x80 then 1 else if c < 0x800 then 2 else 3)"

fun Buffer_byteLength :: "js_string \<Rightarrow> nat" where
  "Buffer_byteLength [] = 0"
| "Buffer_byteLength [c] = unit_bytes c"
| "Buffer_byteLength (c # d # cs) =
     (if 0xD800 \<le> c \<and> c \<le> 0xDBFF \<and> 0xDC00 \<le> d \<and> d \<le> 0xDFFF
      then 4 + Buffer_byteLength cs
      else unit_bytes c + Buffer_byteLength (d # cs))"

subsection \<open>The splitter\<close>

text \<open>
  \<open>Math.floor(this.maxMemoryBytes * 0.8)\<close> is computed in double precision. The
  literal \<open>0.8\<close> is the double \<open>3602879701896397 / 2 ^ 52\<close>, and the product of two
  doubles is their exact product rounded to the nearest number with 53 significant bits,
  a tie going to the one whose last bit is even. \<open>round_53 p\<close> rounds the whole number
  \<open>p\<close> in that way; scaling by a power of two does not change which bits are kept, so
  the product for a whole number \<open>m\<close> of bytes is \<open>round_53 (m * 3602879701896397) / 2 ^ 52\<close>.
  The memory budget is itself a double, hence a whole number that a double represents.
\<close>

fun bit_length :: "nat \<Rightarrow> nat" where
  "bit_length n = (if n = 0 then 0 else Suc (bit_length (n div 2)))"

declare bit_length.simps [simp del]

definition round_53 :: "nat \<Rightarrow> nat" where
  "round_53 p =
     (let s = bit_length p - 53;
          q = p div 2 ^ s;
          r = p mod 2 ^ s
      in if 2 * r > 2 ^ s \<or> (2 * r = 2 ^ s \<and> odd q) then (q + 1) * 2 ^ s else q * 2 ^ s)"

definition floor_times_0_8 :: "nat \<Rightarrow> nat" where
  "floor_times_0_8 m = round_53 (m * 3602879701896397) div 2 ^ 52"

text \<open>
  The constructor: \<open>options.maxMemoryBytes || 400 * 1024 * 1024\<close> takes the default for
  a missing or zero option.
\<close>

record splitter =
  maxMemoryBytes :: nat
  chunkSizeBytes :: nat

definition new_Splitter :: "nat option \<Rightarrow> splitter" where
  "new_Splitter options_maxMemoryBytes =
     (let m = (case options_maxMemoryBytes of
                 None \<Rightarrow> 400 * 1024 * 1024
               | Some v \<Rightarrow> if v = 0 then 400 * 1024 * 1024 else v)
      in \<lparr>maxMemoryBytes = m, chunkSizeBytes = floor_times_0_8 m\<rparr>)"

definition getChunkPath :: "node \<Rightarrow> js_string \<Rightarrow> nat \<Rightarrow> js_string" where
  "getChunkPath P tempDir chunkIndex =
     path_join P tempDir (js ''chunk_'' @ padStart 6 0x30 (String_nat chunkIndex) @ js ''.txt'')"

text \<open>\<open>_writeChunk\<close> writes each line of the buffer with a newline after it.\<close>

definition writeChunk ::
  "node \<Rightarrow> filesystem \<Rightarrow> js_string list \<Rightarrow> js_string \<Rightarrow> nat \<Rightarrow> filesystem" where
  "writeChunk P fs lines tempDir chunkIndex = fs(getChunkPath P tempDir chunkIndex \<mapsto> lines)"

text \<open>
  The variables of \<open>split\<close>, and the body of \<open>for await (const line of rl)\<close> over the
  lines of the input.
\<close>

record split_state =
  chunkFiles :: "js_string list"
  chunkIndex :: nat
  currentChunkSize :: nat
  linesBuffer :: "js_string list"
  disk :: filesystem

definition lineSize :: "js_string \<Rightarrow> nat" where
  "lineSize line = Buffer_byteLength (line @ [newline])"

fun split_loop ::
  "node \<Rightarrow> splitter \<Rightarrow> js_string \<Rightarrow> js_string list \<Rightarrow> split_state \<Rightarrow> split_state" where
  "split_loop P sp tempDir [] st = st"
| "split_loop P sp tempDir (line # rest) st =
     (let buf = linesBuffer st @ [line];
          size = currentChunkSize st + lineSize line
      in if size \<ge> chunkSizeBytes sp
         then split_loop P sp tempDir rest
                \<lparr>chunkFiles = chunkFiles st @ [getChunkPath P tempDir (chunkIndex st)],
                 chunkIndex = chunkIndex st + 1,
                 currentChunkSize = 0,
                 linesBuffer = [],
                 disk = writeChunk P (disk st) buf tempDir (chunkIndex st)\<rparr>
         else split_loop P sp tempDir rest (st\<lparr>linesBuffer := buf, currentChunkSize := size\<rparr>))"

definition Splitter_split ::
  "node \<Rightarrow> splitter \<Rightarrow> filesystem \<Rightarrow> js_string \<Rightarrow> js_string
     \<Rightarrow> (error + js_string list) \<times> filesystem" where
  "Splitter_split P sp fs inputFile tempDir =
     (case fs inputFile of
        None \<Rightarrow> (Inl (ENOENT inputFile), fs)
      | Some lines \<Rightarrow>
          let st = split_loop P sp tempDir lines
                     \<lparr>chunkFiles = [], chunkIndex = 0, currentChunkSize = 0, linesBuffer = [],
                      disk = fs\<rparr>
          in if length (linesBuffer st) > 0
             then (Inr (chunkFiles st @ [getChunkPath P tempDir (chunkIndex st)]),
                   writeChunk P (disk st) (linesBuffer st) tempDir (chunkIndex st))
             else (Inr (chunkFiles st), disk st))"


subsection \<open>The size of the chunks\<close>

definition chunk_size :: "js_string list \<Rightarrow> nat" where
  "chunk_size c = sum_list (map lineSize c)"

text \<open>
  A chunk that the loop flushed: it reached the threshold with its last line, and not
  before.
\<close>

definition flushed_chunk :: "nat \<Rightarrow> js_string list \<Rightarrow> bool" where
  "flushed_chunk threshold c \<longleftrightarrow>
     c \<noteq> [] \<and> threshold \<le> chunk_size c \<and> chunk_size c - threshold < lineSize (last c)"

text \<open>
  Every chunk path that no later chunk has taken again names a file that holds a flushed
  chunk.
\<close>

definition chunks_held :: "nat \<Rightarrow> js_string list \<Rightarrow> filesystem \<Rightarrow> bool" where
  "chunks_held threshold paths fs \<longleftrightarrow>
     (\<forall>i<length paths. (\<forall>j<length paths. i < j \<longrightarrow> paths ! j \<noteq> paths ! i) \<longrightarrow>
        (\<exists>c. fs (paths ! i) = Some c \<and> flushed_chunk threshold c))"

definition split_inv :: "splitter \<Rightarrow> split_state \<Rightarrow> bool" where
  "split_inv sp st \<longleftrightarrow>
     currentChunkSize st = chunk_size (linesBuffer st) \<and>
     currentChunkSize st < chunkSizeBytes sp \<and>
     chunks_held (chunkSizeBytes sp) (chunkFiles st) (disk st)"

lemma chunks_held_flush:
  assumes h: "chunks_held t paths fs" and c: "flushed_chunk t c"
  shows "chunks_held t (paths @ [p]) (fs(p \<mapsto> c))"
  unfolding chunks_held_def
proof (intro allI impI)
  fix i
  assume i: "i < length (paths @ [p])"
    and later: "\<forall>j<length (paths @ [p]). i < j \<longrightarrow> (paths @ [p]) ! j \<noteq> (paths @ [p]) ! i"
  show "\<exists>c'. (fs(p \<mapsto> c)) ((paths @ [p]) ! i) = Some c' \<and> flushed_chunk t c'"
  proof (cases "i < length paths")
    case False
    then have "(paths @ [p]) ! i = p" using i by (simp add: nth_append)
    then show ?thesis using c by simp
  next
    case True
    then have pi: "(paths @ [p]) ! i = paths ! i" by (simp add: nth_append)
    have "p \<noteq> paths ! i"
      using later [rule_format, of "length paths"] True pi by simp
    moreover have "\<forall>j<length paths. i < j \<longrightarrow> paths ! j \<noteq> paths ! i"
    proof (intro allI impI)
      fix j assume j: "j < length paths" "i < j"
      then show "paths ! j \<noteq> paths ! i"
        using later [rule_format, of j] pi by (simp add: nth_append)
    qed
    ultimately show ?thesis
      using h True pi unfolding chunks_held_def by auto
  qed
qed

lemma split_loop_inv:
  "split_inv sp st \<Longrightarrow> split_inv sp (split_loop P sp tempDir lines st)"
proof (induction lines arbitrary: st)
  case Nil
  then show ?case by simp
next
  case (Cons line rest)
  let ?buf = "linesBuffer st @ [line]"
  let ?size = "currentChunkSize st + lineSize line"
  have sz: "chunk_size ?buf = ?size"
    using Cons.prems by (simp add: split_inv_def chunk_size_def)
  show ?case
  proof (cases "?size \<ge> chunkSizeBytes sp")
    case True
    let ?st = "\<lparr>chunkFiles = chunkFiles st @ [getChunkPath P tempDir (chunkIndex st)],
                 chunkIndex = chunkIndex st + 1, currentChunkSize = 0, linesBuffer = [],
                 disk = writeChunk P (disk st) ?buf tempDir (chunkIndex st)\<rparr>"
    have "currentChunkSize st < chunkSizeBytes sp"
      using Cons.prems by (simp add: split_inv_def)
    then have "flushed_chunk (chunkSizeBytes sp) ?buf"
      using True sz by (simp add: flushed_chunk_def)
    then have "chunks_held (chunkSizeBytes sp) (chunkFiles ?st) (disk ?st)"
      using Cons.prems chunks_held_flush by (simp add: split_inv_def writeChunk_def)
    moreover have "0 < chunkSizeBytes sp"
      using Cons.prems by (simp add: split_inv_def)
    ultimately have "split_inv sp ?st"
      by (simp add: split_inv_def chunk_size_def)
    then have "split_inv sp (split_loop P sp tempDir rest ?st)"
      by (rule Cons.IH)
    then show ?thesis using True by (simp add: Let_def)
  next
    case False
    let ?st = "st\<lparr>linesBuffer := ?buf, currentChunkSize := ?size\<rparr>"
    have "split_inv sp ?st"
      using False sz Cons.prems by (simp add: split_inv_def)
    then have "split_inv sp (split_loop P sp tempDir rest ?st)"
      by (rule Cons.IH)
    then show ?thesis using False by (simp add: Let_def)
  qed
qed

subsection \<open>The chunk size in double precision\<close>

lemma bit_length_le: "p < 2 ^ n \<Longrightarrow> bit_length p \<le> n"
proof (induction n arbitrary: p)
  case 0
  then show ?case by (simp add: bit_length.simps)
next
  case (Suc n)
  show ?case
  proof (cases "p = 0")
    case True
    then show ?thesis by (simp add: bit_length.simps)
  next
    case False
    have "p div 2 < 2 ^ n" using Suc.prems by auto
    then have "bit_length (p div 2) \<le> n" by (rule Suc.IH)
    then show ?thesis using False by (subst bit_length.simps) simp
  qed
qed

lemma floor_times_0_8_exact:
  assumes m: "m < 2 ^ 50"
  shows "floor_times_0_8 m = m * 8 div 10"
proof -
  define p where "p = m * 3602879701896397"
  define s where "s = bit_length p - 53"
  define P where "P = (2::nat) ^ s"
  define A where "A = (2::nat) ^ (52 - s)"
  define T where "T = (2::nat) ^ 52"
  define q where "q = p div P"
  define r where "r = p mod P"
  define k where "k = m * 8 div 10"
  define R where "R = round_53 p"
  have "p < 2 ^ 50 * 3602879701896397"
    unfolding p_def using m by simp
  also have "\<dots> < 2 ^ 102" by simp
  finally have "bit_length p \<le> 102" by (rule bit_length_le)
  then have s: "s \<le> 49" by (simp add: s_def)
  have P0: "0 < P" by (simp add: P_def)
  have "P \<le> 2 ^ 49" unfolding P_def using s by (intro power_increasing) simp_all
  then have P49: "P \<le> 562949953421312" by simp
  have "P * A = 2 ^ (s + (52 - s))" by (simp add: P_def A_def power_add)
  then have PA: "P * A = T" using s by (simp add: T_def)
  have T: "T = 4503599627370496" by (simp add: T_def)
  have pqr: "p = q * P + r" and rP: "r < P"
    using P0 by (simp_all add: q_def r_def)
  have R: "R = (if 2 * r > P \<or> (2 * r = P \<and> odd q) then (q + 1) * P else q * P)"
    by (simp add: R_def round_53_def Let_def s_def [symmetric] P_def [symmetric]
                  q_def [symmetric] r_def [symmetric])
  have k: "k = (8 * m) div 10" by (simp only: k_def mult.commute)
  have k1: "10 * k \<le> 8 * m" and k2: "8 * m \<le> 10 * k + 8"
    unfolding k by presburger+
  have ten_p: "10 * p = 8 * m * T + 2 * m"
    unfolding p_def T by simp
  have low: "k * T \<le> p"
  proof -
    have "10 * (k * T) \<le> 8 * m * T" using k1 by (simp add: mult_le_mono1 flip: mult.assoc)
    then show ?thesis using ten_p by linarith
  qed
  have kAP: "k * A * P = k * T"
    unfolding PA [symmetric] by (simp add: ac_simps)
  have "(k * A) * P \<le> p" using low unfolding kAP .
  then have "k * A \<le> q"
    unfolding q_def using P0 by (simp add: less_eq_div_iff_mult_less_eq)
  then have "k * A * P \<le> q * P" by (rule mult_le_mono1)
  then have kq: "k * T \<le> q * P" unfolding kAP .
  have qR: "q * P \<le> R" unfolding R by simp
  have lower: "k * T \<le> R" using kq qR by simp
  have up_p: "10 * p + 5 * P < 10 * ((k + 1) * T)"
  proof -
    have "8 * m * T \<le> (10 * k + 8) * T" using k2 by (rule mult_le_mono1)
    then have "10 * p + 5 * P \<le> (10 * k + 8) * T + 2 * m + 5 * P"
      using ten_p by simp
    also have "\<dots> < (10 * k + 8) * T + 2 * T"
      using m P49 unfolding T by simp
    also have "\<dots> = 10 * ((k + 1) * T)" by (simp add: algebra_simps)
    finally show ?thesis .
  qed
  have upper: "R < (k + 1) * T"
  proof (cases "2 * r > P \<or> (2 * r = P \<and> odd q)")
    case False
    then have "R = q * P" unfolding R by (simp only: if_False)
    then have "R \<le> p" using pqr by simp
    then show ?thesis using up_p by linarith
  next
    case True
    then have "P \<le> 2 * r" by auto
    then have "2 * ((q + 1) * P) \<le> 2 * p + P"
      using pqr by (simp add: algebra_simps)
    moreover have "R = (q + 1) * P" unfolding R using True by (simp only: if_True)
    ultimately show ?thesis using up_p by linarith
  qed
  have "k \<le> R div T"
    using lower T by (simp add: less_eq_div_iff_mult_less_eq)
  moreover have "R div T < k + 1"
    using upper T by (simp add: div_less_iff_less_mult)
  ultimately have "R div T = k" by simp
  then show ?thesis
    by (simp add: floor_times_0_8_def R_def p_def T_def k_def)
qed

text \<open>At \<open>2 ^ 52\<close> bytes the rounded product is a whole number, one above four fifths.\<close>

lemma floor_times_0_8_at_2_52:
  "floor_times_0_8 (2 ^ 52) = 3602879701896397 \<and> (2::nat) ^ 52 * 8 div 10 = 3602879701896396"
  by (simp add: floor_times_0_8_def round_53_def bit_length.simps Let_def)

lemma new_Splitter_Some:
  "0 < v \<Longrightarrow> v < 2 ^ 50 \<Longrightarrow>
   new_Splitter (Some v) = \<lparr>maxMemoryBytes = v, chunkSizeBytes = v * 8 div 10\<rparr>"
  by (simp add: new_Splitter_def floor_times_0_8_exact)

subsection \<open>The chunk paths differ\<close>

text \<open>
  A plain file name is made of ASCII letters, digits, underscores and dots and does not
  start with a dot, so that it is one segment of a path and neither \<open>.\<close> nor \<open>..\<close>.
\<close>

definition name_char :: "16 word \<Rightarrow> bool" where
  "name_char c \<longleftrightarrow>
     (0x30 \<le> c \<and> c \<le> 0x39) \<or> (0x41 \<le> c \<and> c \<le> 0x5A) \<or> (0x61 \<le> c \<and> c \<le> 0x7A) \<or>
     c = 0x5F \<or> c = 0x2E"

definition plain_name :: "js_string \<Rightarrow> bool" where
  "plain_name name \<longleftrightarrow> name \<noteq> [] \<and> hd name \<noteq> 0x2E \<and> list_all name_char name"

text \<open>The number that a string of decimal digits stands for.\<close>

definition digits_value :: "js_string \<Rightarrow> nat" where
  "digits_value s = foldl (\<lambda>a c. 10 * a + (unat c - 0x30)) 0 s"

lemma digit_less_10:
  assumes "d < 10"
  shows "unat (digit d) = 0x30 + d" and "0x30 \<le> digit d" and "digit d \<le> 0x39"
proof -
  have "d \<in> {0, 1, 2, 3, 4, 5, 6, 7, 8, 9}" using assms by auto
  then show "unat (digit d) = 0x30 + d" "0x30 \<le> digit d" "digit d \<le> 0x39"
    by (auto simp: digit_def)
qed

lemma digits_value_snoc: "digits_value (s @ [c]) = 10 * digits_value s + (unat c - 0x30)"
  by (simp add: digits_value_def)

lemma digits_value_String_nat: "digits_value (String_nat n) = n"
proof (induction n rule: String_nat.induct)
  case (1 n)
  show ?case
  proof (cases "n < 10")
    case True
    then show ?thesis
      by (subst String_nat.simps) (simp add: digits_value_def digit_less_10)
  next
    case False
    have "n mod 10 < 10" by simp
    then have "unat (digit (n mod 10)) - 0x30 = n mod 10"
      by (simp add: digit_less_10)
    then have "digits_value (String_nat (n div 10) @ [digit (n mod 10)]) = n"
      using 1 False by (simp add: digits_value_snoc)
    then show ?thesis
      using False by (subst String_nat.simps) simp
  qed
qed

lemma digits_value_zeros: "digits_value (replicate k 0x30 @ s) = digits_value s"
proof -
  have "foldl (\<lambda>a c. 10 * a + (unat c - 0x30)) 0 (replicate k (0x30 :: 16 word)) = 0"
    by (induction k) simp_all
  then show ?thesis by (simp add: digits_value_def)
qed

lemma digits_value_padStart: "digits_value (padStart w 0x30 (String_nat n)) = n"
  by (simp add: padStart_def digits_value_zeros digits_value_String_nat)

lemma String_nat_digits: "c \<in> set (String_nat n) \<Longrightarrow> 0x30 \<le> c \<and> c \<le> 0x39"
proof (induction n rule: String_nat.induct)
  case (1 n)
  show ?case
  proof (cases "n < 10")
    case True
    then have "c = digit n" using "1.prems" by (subst (asm) String_nat.simps) simp
    then show ?thesis using True digit_less_10 by simp
  next
    case False
    then have "c \<in> set (String_nat (n div 10)) \<or> c = digit (n mod 10)"
      using "1.prems" by (subst (asm) String_nat.simps) auto
    moreover have "n mod 10 < 10" by simp
    ultimately show ?thesis
      using 1(1) False digit_less_10 [of "n mod 10"] by auto
  qed
qed

definition chunk_name :: "nat \<Rightarrow> js_string" where
  "chunk_name k = js ''chunk_'' @ padStart 6 0x30 (String_nat k) @ js ''.txt''"

lemma chunk_name_plain: "plain_name (chunk_name k)"
proof -
  have d: "name_char c" if "c \<in> set (padStart 6 0x30 (String_nat k))" for c
  proof -
    have "c = 0x30 \<or> c \<in> set (String_nat k)"
      using that by (auto simp: padStart_def)
    then have "0x30 \<le> c \<and> c \<le> 0x39"
      using String_nat_digits by auto
    then show ?thesis by (simp add: name_char_def)
  qed
  have "list_all name_char (js ''chunk_'')" "list_all name_char (js ''.txt'')"
    by (simp_all add: js_def name_char_def)
  then have "list_all name_char (chunk_name k)"
    using d by (auto simp: chunk_name_def list_all_iff)
  moreover have "hd (chunk_name k) = 0x63" "chunk_name k \<noteq> []"
    by (simp_all add: chunk_name_def js_def)
  ultimately show ?thesis by (simp add: plain_name_def)
qed

lemma chunk_name_inj: "chunk_name i = chunk_name j \<Longrightarrow> i = j"
proof -
  assume "chunk_name i = chunk_name j"
  then have "padStart 6 0x30 (String_nat i) = padStart 6 0x30 (String_nat j)"
    by (simp add: chunk_name_def)
  then have "digits_value (padStart 6 0x30 (String_nat i)) = digits_value (padStart 6 0x30 (String_nat j))"
    by simp
  then show "i = j" by (simp only: digits_value_padStart)
qed

lemma getChunkPath_name: "getChunkPath P tempDir k = path_join P tempDir (chunk_name k)"
  by (simp add: getChunkPath_def chunk_name_def)

lemma getChunkPath_inj:
  assumes "inj_on (path_join P tempDir) {name. plain_name name}"
  shows "inj (getChunkPath P tempDir)"
proof (rule injI)
  fix i j assume "getChunkPath P tempDir i = getChunkPath P tempDir j"
  then have "chunk_name i = chunk_name j"
    using assms chunk_name_plain by (auto simp: getChunkPath_name dest: inj_onD)
  then show "i = j" by (rule chunk_name_inj)
qed

lemma split_loop_paths:
  "chunkIndex st \<le> chunkIndex (split_loop P sp t lines st) \<and>
   chunkFiles (split_loop P sp t lines st) =
     chunkFiles st @ map (getChunkPath P t) [chunkIndex st..<chunkIndex (split_loop P sp t lines st)]"
proof (induction lines arbitrary: st)
  case Nil
  show ?case by simp
next
  case (Cons line rest)
  let ?buf = "linesBuffer st @ [line]"
  let ?size = "currentChunkSize st + lineSize line"
  show ?case
  proof (cases "?size \<ge> chunkSizeBytes sp")
    case True
    let ?st = "\<lparr>chunkFiles = chunkFiles st @ [getChunkPath P t (chunkIndex st)],
                 chunkIndex = chunkIndex st + 1, currentChunkSize = 0, linesBuffer = [],
                 disk = writeChunk P (disk st) ?buf t (chunkIndex st)\<rparr>"
    have e: "split_loop P sp t (line # rest) st = split_loop P sp t rest ?st"
      using True by (simp add: Let_def)
    have le: "chunkIndex st + 1 \<le> chunkIndex (split_loop P sp t rest ?st)"
      and fl: "chunkFiles (split_loop P sp t rest ?st) =
        (chunkFiles st @ [getChunkPath P t (chunkIndex st)]) @
        map (getChunkPath P t) [chunkIndex st + 1..<chunkIndex (split_loop P sp t rest ?st)]"
      using Cons.IH [of ?st] by simp_all
    have "[chunkIndex st..<chunkIndex (split_loop P sp t rest ?st)] =
          chunkIndex st # [chunkIndex st + 1..<chunkIndex (split_loop P sp t rest ?st)]"
      using le by (simp add: upt_conv_Cons)
    then show ?thesis
      unfolding e using le fl by simp
  next
    case False
    let ?st = "st\<lparr>linesBuffer := ?buf, currentChunkSize := ?size\<rparr>"
    have e: "split_loop P sp t (line # rest) st = split_loop P sp t rest ?st"
      using False by (simp add: Let_def)
    show ?thesis
      unfolding e using Cons.IH [of ?st] by simp
  qed
qed

lemma Splitter_split_paths:
  assumes "Splitter_split P sp fs inputFile t = (Inr paths, fs')"
  shows "paths = map (getChunkPath P t) [0..<length paths]"
proof -
  obtain lines where inp: "fs inputFile = Some lines"
    using assms by (cases "fs inputFile") (simp_all add: Splitter_split_def)
  let ?init = "\<lparr>chunkFiles = [], chunkIndex = 0, currentChunkSize = 0, linesBuffer = [], disk = fs\<rparr>"
  let ?st = "split_loop P sp t lines ?init"
  have c: "chunkFiles ?st = map (getChunkPath P t) [0..<chunkIndex ?st]"
    using split_loop_paths [of ?init P sp t lines] by simp
  show ?thesis
  proof (cases "length (linesBuffer ?st) > 0")
    case False
    then have "paths = chunkFiles ?st"
      using assms inp by (simp add: Splitter_split_def Let_def)
    then show ?thesis using c by simp
  next
    case True
    then have "paths = chunkFiles ?st @ [getChunkPath P t (chunkIndex ?st)]"
      using assms inp by (simp add: Splitter_split_def Let_def)
    then show ?thesis using c by simp
  qed
qed

lemma Splitter_split_distinct:
  assumes "Splitter_split P sp fs inputFile t = (Inr paths, fs')"
    and "inj_on (path_join P t) {name. plain_name name}"
  shows "distinct paths"
proof -
  have "inj_on (getChunkPath P t) (set [0..<length paths])"
    using getChunkPath_inj [OF assms(2)] by (rule inj_on_subset) simp
  then have "distinct (map (getChunkPath P t) [0..<length paths])"
    by (simp add: distinct_map)
  then show ?thesis
    using Splitter_split_paths [OF assms(1)] by simp
qed

lemma posix_path_join_inj: "inj (path_join posix t)"
  by (rule injI) (simp add: posix_def)

text \<open>
  C8, amended. When \<open>path.join\<close> maps different plain file names to different paths
  of the temp directory and the chunk size is positive: the chunk size is the floor of
  \<open>maxMemoryBytes * 0.8\<close> in double precision, which for a budget below \<open>2 ^ 50\<close>
  bytes is \<open>maxMemoryBytes * 8 div 10\<close>; the chunk paths that \<open>split\<close> returns are
  pairwise different; and every chunk file holds at least one line and either has
  reached the chunk size, exceeding it by less than the size of its last line, or is
  the last chunk, the remainder, and is below the chunk size. Sizes count the UTF-8
  bytes of each line and one byte for its newline.
\<close>

theorem split_chunk_sizes:
  assumes "Splitter_split P (new_Splitter options) fs inputFile tempDir = (Inr paths, fs')"
    and "inj_on (path_join P tempDir) {name. plain_name name}"
    and "0 < chunkSizeBytes (new_Splitter options)"
  shows "chunkSizeBytes (new_Splitter options) = floor_times_0_8 (maxMemoryBytes (new_Splitter options)) \<and>
    (maxMemoryBytes (new_Splitter options) < 2 ^ 50 \<longrightarrow>
       chunkSizeBytes (new_Splitter options) = maxMemoryBytes (new_Splitter options) * 8 div 10) \<and>
    distinct paths \<and>
    (\<forall>i<length paths. \<exists>c. fs' (paths ! i) = Some c \<and> c \<noteq> [] \<and>
       (chunkSizeBytes (new_Splitter options) \<le> chunk_size c \<and>
        chunk_size c - chunkSizeBytes (new_Splitter options) < lineSize (last c)
        \<or> Suc i = length paths \<and> chunk_size c < chunkSizeBytes (new_Splitter options)))"
proof -
  let ?sp = "new_Splitter options"
  let ?t = "chunkSizeBytes ?sp"
  obtain lines where inp: "fs inputFile = Some lines"
    using assms(1) by (cases "fs inputFile") (simp_all add: Splitter_split_def)
  let ?init = "\<lparr>chunkFiles = [], chunkIndex = 0, currentChunkSize = 0, linesBuffer = [], disk = fs\<rparr>"
  let ?st = "split_loop P ?sp tempDir lines ?init"
  have "split_inv ?sp ?init"
    using assms(3) by (simp add: split_inv_def chunk_size_def chunks_held_def)
  then have inv: "split_inv ?sp ?st"
    by (rule split_loop_inv)
  have t0: "?t = floor_times_0_8 (maxMemoryBytes ?sp)"
    by (simp add: new_Splitter_def Let_def)
  have t: "?t = maxMemoryBytes ?sp * 8 div 10" if "maxMemoryBytes ?sp < 2 ^ 50"
    unfolding t0 using that by (rule floor_times_0_8_exact)
  have d: "distinct paths"
    using assms(1,2) by (rule Splitter_split_distinct)
  have later: "\<forall>j<length paths. i < j \<longrightarrow> paths ! j \<noteq> paths ! i" if "i < length paths" for i
    using d that by (simp add: nth_eq_iff_index_eq)
  have "\<exists>c. fs' (paths ! i) = Some c \<and> c \<noteq> [] \<and>
       (?t \<le> chunk_size c \<and> chunk_size c - ?t < lineSize (last c)
        \<or> Suc i = length paths \<and> chunk_size c < ?t)" if i: "i < length paths" for i
  proof (cases "length (linesBuffer ?st) > 0")
    case False
    then have r: "paths = chunkFiles ?st" "fs' = disk ?st"
      using assms(1) inp by (simp_all add: Splitter_split_def Let_def)
    have "\<exists>c. disk ?st (chunkFiles ?st ! i) = Some c \<and> flushed_chunk ?t c"
      using inv i later [OF i] unfolding split_inv_def chunks_held_def r by blast
    then show ?thesis
      unfolding r flushed_chunk_def by blast
  next
    case True
    let ?p = "getChunkPath P tempDir (chunkIndex ?st)"
    have r: "paths = chunkFiles ?st @ [?p]" "fs' = (disk ?st)(?p \<mapsto> linesBuffer ?st)"
      using True assms(1) inp by (simp_all add: Splitter_split_def Let_def writeChunk_def)
    show ?thesis
    proof (cases "i < length (chunkFiles ?st)")
      case False
      then have "paths ! i = ?p" "Suc i = length paths"
        using i r(1) by (simp_all add: nth_append)
      moreover have "chunk_size (linesBuffer ?st) < ?t"
        using inv by (simp add: split_inv_def)
      ultimately show ?thesis
        using True r(2) by auto
    next
      case il: True
      then have pi: "paths ! i = chunkFiles ?st ! i"
        by (simp add: r(1) nth_append)
      have "?p \<noteq> chunkFiles ?st ! i"
        using later [OF i, rule_format, of "length (chunkFiles ?st)"] il pi r(1) by simp
      moreover have "\<forall>j<length (chunkFiles ?st). i < j \<longrightarrow> chunkFiles ?st ! j \<noteq> chunkFiles ?st ! i"
      proof (intro allI impI)
        fix j assume "j < length (chunkFiles ?st)" "i < j"
        then show "chunkFiles ?st ! j \<noteq> chunkFiles ?st ! i"
          using later [OF i, rule_format, of j] pi r(1) by (simp add: nth_append)
      qed
      then have "\<exists>c. disk ?st (chunkFiles ?st ! i) = Some c \<and> flushed_chunk ?t c"
        using inv il unfolding split_inv_def chunks_held_def by blast
      ultimately show ?thesis
        unfolding pi r(2) flushed_chunk_def by auto
    qed
  qed
  then show ?thesis using t0 t d by blast
qed

definition ex_input :: "js_string list \<Rightarrow> filesystem" where
  "ex_input lines = [js ''in'' \<mapsto> lines]"

theorem split_chunk_sizes_witness:
  "fst (Splitter_split posix (new_Splitter (Some 10))
          (ex_input [js ''abc'', js ''de'', js ''f'', js ''ghijklmnopq'', js ''r'']) (js ''in'') (js ''t''))
     = Inr [js ''t/chunk_000000.txt'', js ''t/chunk_000001.txt'', js ''t/chunk_000002.txt''] \<and>
   distinct [js ''t/chunk_000000.txt'', js ''t/chunk_000001.txt'', js ''t/chunk_000002.txt''] \<and>
   chunkSizeBytes (new_Splitter (Some 10)) = 8 \<and>
   (\<exists>c. snd (Splitter_split posix (new_Splitter (Some 10))
          (ex_input [js ''abc'', js ''de'', js ''f'', js ''ghijklmnopq'', js ''r'']) (js ''in'') (js ''t''))
          (js ''t/chunk_000000.txt'') = Some c \<and>
        c \<noteq> [] \<and> 8 \<le> chunk_size c \<and> chunk_size c - 8 < lineSize (last c))"
proof -
  let ?run = "Splitter_split posix (new_Splitter (Some 10))
          (ex_input [js ''abc'', js ''de'', js ''f'', js ''ghijklmnopq'', js ''r'']) (js ''in'') (js ''t'')"
  let ?paths = "[js ''t/chunk_000000.txt'', js ''t/chunk_000001.txt'', js ''t/chunk_000002.txt'']"
  have sp: "new_Splitter (Some 10) = \<lparr>maxMemoryBytes = 10, chunkSizeBytes = 8\<rparr>"
    by (simp add: new_Splitter_Some)
  have f: "fst ?run = Inr ?paths"
    unfolding sp by code_simp
  then have h1: "?run = (Inr ?paths, snd ?run)"
    by (metis prod.collapse)
  have h2: "inj_on (path_join posix (js ''t'')) {name. plain_name name}"
    using posix_path_join_inj by (rule inj_on_subset) simp
  have t: "chunkSizeBytes (new_Splitter (Some 10)) = 8"
    by (simp add: sp)
  then have h3: "0 < chunkSizeBytes (new_Splitter (Some 10))"
    by simp
  note r = split_chunk_sizes [OF h1 h2 h3]
  have d: "distinct ?paths"
    using r by blast
  have "\<forall>i<length ?paths. \<exists>c. snd ?run (?paths ! i) = Some c \<and> c \<noteq> [] \<and>
       (chunkSizeBytes (new_Splitter (Some 10)) \<le> chunk_size c \<and>
        chunk_size c - chunkSizeBytes (new_Splitter (Some 10)) < lineSize (last c)
        \<or> Suc i = length ?paths \<and> chunk_size c < chunkSizeBytes (new_Splitter (Some 10)))"
    using r by blast
  moreover have "0 < length ?paths" "Suc 0 \<noteq> length ?paths"
    by simp_all
  ultimately obtain c where c: "snd ?run (?paths ! 0) = Some c" "c \<noteq> []"
      "chunkSizeBytes (new_Splitter (Some 10)) \<le> chunk_size c"
      "chunk_size c - chunkSizeBytes (new_Splitter (Some 10)) < lineSize (last c)"
    by blast
  have "snd ?run (js ''t/chunk_000000.txt'') = Some c"
    using c(1) by simp
  then have "\<exists>c. snd ?run (js ''t/chunk_000000.txt'') = Some c \<and>
        c \<noteq> [] \<and> 8 \<le> chunk_size c \<and> chunk_size c - 8 < lineSize (last c)"
    using c(2,3,4) unfolding t by blast
  then show ?thesis
    using f d t by blast
qed

text \<open>
  C8. The claim fails for a memory budget of one byte, where the chunk size is zero: the
  first line is flushed as a chunk of its own, which exceeds the chunk size by the whole
  size of its last line, two bytes, not by less.
\<close>

theorem split_chunk_sizes_counterexample:
  "chunkSizeBytes (new_Splitter (Some 1)) = 0 \<and>
   fst (Splitter_split posix (new_Splitter (Some 1)) (ex_input [js ''a'', js ''b''])
          (js ''in'') (js ''t''))
     = Inr [js ''t/chunk_000000.txt'', js ''t/chunk_000001.txt''] \<and>
   snd (Splitter_split posix (new_Splitter (Some 1)) (ex_input [js ''a'', js ''b''])
          (js ''in'') (js ''t'')) (js ''t/chunk_000000.txt'') = Some [js ''a''] \<and>
   chunk_size [js ''a''] - chunkSizeBytes (new_Splitter (Some 1)) = 2 \<and>
   lineSize (last [js ''a'']) = 2 \<and>
   \<not> chunk_size [js ''a''] - chunkSizeBytes (new_Splitter (Some 1)) < lineSize (last [js ''a''])"
proof -
  have sp: "new_Splitter (Some 1) = \<lparr>maxMemoryBytes = 1, chunkSizeBytes = 0\<rparr>"
    by (simp add: new_Splitter_Some)
  show ?thesis
    unfolding sp by code_simp
qed


section \<open>sorter.js: sorting all chunks\<close>

subsection \<open>One chunk after the other\<close>

text \<open>
  The branch of \<open>sortChunks\<close> for \<open>useWorkers\<close> false or at most one chunk: the chunks
  are sorted in order in the main thread, and the first failure rejects.
\<close>

fun sortChunks_sequential ::
  "js_string list \<Rightarrow> filesystem \<Rightarrow> js_string list \<Rightarrow> js_string list
     \<Rightarrow> (error + js_string list) \<times> filesystem" where
  "sortChunks_sequential dirs fs [] sortedChunks = (Inr sortedChunks, fs)"
| "sortChunks_sequential dirs fs (chunkPath # rest) sortedChunks =
     (case Sorter_sortChunk dirs fs chunkPath of
        (Inl e, fs') \<Rightarrow> (Inl e, fs')
      | (Inr sortedChunkPath, fs') \<Rightarrow>
          sortChunks_sequential dirs fs' rest (sortedChunks @ [sortedChunkPath]))"

subsection \<open>The worker pool\<close>

text \<open>
  The other branch hands chunks to worker threads. What the main thread does is
  \<open>processNextChunk\<close>, called \<open>min maxWorkers (length chunkList)\<close> times at the start
  and once more by the handler of every message of success. Handlers run one at a time,
  in the order in which the messages arrive, which no worker decides. The state is what
  the closures share: the \<open>busy\<close> flag of each entry of \<open>workerPool\<close>, the array
  \<open>results\<close>, the counter \<open>completedChunks\<close>, and the promise; \<open>workers\<close> lists every
  \<open>new Worker\<close> with the pool entry and the \<open>chunkIndex\<close> that its handler has captured
  (the source logs both when it creates the worker), and \<open>finished\<close> the workers whose
  message has been handled.

  Assigning \<open>results[i]\<close> beyond the end of a JavaScript array extends it with holes,
  which read as \<open>undefined\<close> (\<open>None\<close>).
\<close>

definition array_set :: "'a option list \<Rightarrow> nat \<Rightarrow> 'a \<Rightarrow> 'a option list" where
  "array_set xs i v =
     (if i < length xs then xs[i := Some v]
      else xs @ replicate (i - length xs) None @ [Some v])"

record pool_state =
  workerPool :: "bool list"
  results :: "js_string option list"
  completedChunks :: nat
  workers :: "(nat \<times> nat) list"
  finished :: "nat list"
  settled :: "(error + js_string option list) option"

definition settle :: "(error + js_string option list) \<Rightarrow> pool_state \<Rightarrow> pool_state" where
  "settle outcome st = (if settled st = None then st\<lparr>settled := Some outcome\<rparr> else st)"

text \<open>\<open>workerPool.find((w) => !w.busy)\<close>: the first entry that is not busy.\<close>

fun find_free :: "bool list \<Rightarrow> nat \<Rightarrow> nat option" where
  "find_free [] i = None"
| "find_free (busy # rest) i = (if \<not> busy then Some i else find_free rest (Suc i))"

definition processNextChunk :: "js_string list \<Rightarrow> pool_state \<Rightarrow> pool_state" where
  "processNextChunk chunkList st =
     (if completedChunks st = length chunkList then settle (Inr (results st)) st
      else case find_free (workerPool st) 0 of
             None \<Rightarrow> st
           | Some availableWorker \<Rightarrow>
               let chunkIndex = completedChunks st
               in if chunkIndex \<ge> length chunkList then st
                  else st\<lparr>workerPool := (workerPool st)[availableWorker := True],
                          workers := workers st @ [(availableWorker, chunkIndex)]\<rparr>)"

text \<open>
  What a worker reports: the path of its sorted chunk, a failure with a message, or an
  \<open>error\<close> event. The handlers of worker \<open>w\<close>, the \<open>w\<close>-th worker created.
\<close>

datatype worker_event = Succeeded nat | Failed nat js_string | Crashed nat error

definition on_event :: "js_string list \<Rightarrow> worker_event \<Rightarrow> pool_state \<Rightarrow> pool_state" where
  "on_event chunkList ev st =
     (let w = (case ev of Succeeded w \<Rightarrow> w | Failed w m \<Rightarrow> w | Crashed w e \<Rightarrow> w)
      in if w \<ge> length (workers st) \<or> w \<in> set (finished st) then st
         else let (availableWorker, chunkIndex) = workers st ! w;
                  st1 = st\<lparr>finished := finished st @ [w]\<rparr>
              in (case ev of
                    Succeeded _ \<Rightarrow>
                      processNextChunk chunkList
                        (st1\<lparr>results := array_set (results st1) chunkIndex
                                            (sorted_name (chunkList ! chunkIndex)),
                             completedChunks := completedChunks st1 + 1,
                             workerPool := (workerPool st1)[availableWorker := False]\<rparr>)
                  | Failed _ m \<Rightarrow> settle (Inl (Error m)) st1
                  | Crashed _ e \<Rightarrow> settle (Inl e) st1))"

definition pool_start :: "nat \<Rightarrow> js_string list \<Rightarrow> pool_state" where
  "pool_start maxWorkers chunkList =
     ((processNextChunk chunkList) ^^ (min maxWorkers (length chunkList)))
       \<lparr>workerPool = replicate maxWorkers False, results = [], completedChunks = 0,
        workers = [], finished = [], settled = None\<rparr>"

definition pool_run :: "nat \<Rightarrow> js_string list \<Rightarrow> worker_event list \<Rightarrow> pool_state" where
  "pool_run maxWorkers chunkList events =
     fold (on_event chunkList) events (pool_start maxWorkers chunkList)"

definition two_chunks :: "js_string list" where
  "two_chunks = [js ''t/chunk_000000.txt'', js ''t/chunk_000001.txt'']"


subsection \<open>What the pool hands out at the start\<close>

lemma find_free_replicate:
  "find_free (replicate k True @ replicate (Suc m) False) i = Some (i + k)"
  by (induction k arbitrary: i) simp_all

lemma pool_start_steps:
  assumes "chunkList \<noteq> []" "k \<le> maxWorkers"
  shows "((processNextChunk chunkList) ^^ k)
           \<lparr>workerPool = replicate maxWorkers False, results = [], completedChunks = 0,
            workers = [], finished = [], settled = None\<rparr> =
         \<lparr>workerPool = replicate k True @ replicate (maxWorkers - k) False, results = [],
          completedChunks = 0, workers = map (\<lambda>w. (w, 0)) [0..<k], finished = [],
          settled = None\<rparr>"
  using assms(2)
proof (induction k)
  case 0
  then show ?case by simp
next
  case (Suc k)
  then obtain m where m: "maxWorkers - k = Suc m"
    by (metis Suc_diff_Suc Suc_le_lessD)
  then have m': "maxWorkers - Suc k = m" by simp
  have free: "find_free (replicate k True @ replicate (maxWorkers - k) False) 0 = Some k"
    unfolding m using find_free_replicate [of k m 0] by simp
  have upd: "(replicate k True @ replicate (Suc m) False)[k := True] =
             replicate (Suc k) True @ replicate m False"
    by (simp add: list_update_append replicate_app_Cons_same)
  show ?case
    using Suc assms(1) free upd
    by (simp add: processNextChunk_def Let_def m m')
qed

text \<open>
  C3. The next chunk to hand out is read from \<open>completedChunks\<close>, which no call of
  \<open>processNextChunk\<close> changes: the calls at the start, one for each of the first
  workers, all find it zero. Every worker created at the start is given the first chunk,
  whatever the list of chunks and the size of the pool. With two chunks and two workers,
  when both workers report success the second chunk is handed out once the first message
  is handled, and the promise resolves at the second message with an array that has one
  entry, before the second chunk is sorted; when the second worker fails (the first has
  deleted the chunk), the promise rejects.
\<close>

theorem pool_hands_out_first_chunk_twice:
  "(chunkList \<noteq> [] \<longrightarrow>
      workers (pool_start maxWorkers chunkList) =
        map (\<lambda>w. (w, 0)) [0..<min maxWorkers (length chunkList)]) \<and>
   workers (pool_start 2 two_chunks) = [(0, 0), (1, 0)] \<and>
   workers (pool_run 2 two_chunks [Succeeded 0, Succeeded 1]) = [(0, 0), (1, 0), (0, 1)] \<and>
   finished (pool_run 2 two_chunks [Succeeded 0, Succeeded 1]) = [0, 1] \<and>
   settled (pool_run 2 two_chunks [Succeeded 0, Succeeded 1]) =
     Some (Inr [Some (js ''t/chunk_000000.sorted.txt'')]) \<and>
   settled (pool_run 2 two_chunks [Succeeded 0, Failed 1 (js ''error in worker'')]) =
     Some (Inl (Error (js ''error in worker'')))"
proof (intro conjI impI)
  assume "chunkList \<noteq> []"
  then show "workers (pool_start maxWorkers chunkList) =
        map (\<lambda>w. (w, 0)) [0..<min maxWorkers (length chunkList)]"
    unfolding pool_start_def
    by (subst pool_start_steps) simp_all
qed (code_simp+)

theorem pool_hands_out_first_chunk_twice_witness:
  "two_chunks \<noteq> [] \<and> workers (pool_start 4 two_chunks) = [(0, 0), (1, 0)]"
proof -
  have h: "two_chunks \<noteq> []" by (simp add: two_chunks_def)
  have "min 4 (length two_chunks) = 2" by (simp add: two_chunks_def)
  then have "map (\<lambda>w. (w, 0::nat)) [0..<min 4 (length two_chunks)] = [(0, 0), (1, 0)]"
    by (simp add: upt_rec)
  then show ?thesis
    using h pool_hands_out_first_chunk_twice [of two_chunks 4] by simp
qed


section \<open>merger.js: merging in levels\<close>

text \<open>
  The name of a merged chunk, \<open>merged_level${levelIndex}_group${Math.floor(i / maxOpenFiles)}.txt\<close>.
  The quotient \<open>0 / 0\<close> is \<open>NaN\<close>.
\<close>

definition mergedChunkName :: "nat \<Rightarrow> nat \<Rightarrow> nat \<Rightarrow> js_string" where
  "mergedChunkName levelIndex i maxOpenFiles =
     js ''merged_level'' @ String_nat levelIndex @ js ''_group'' @
     (if maxOpenFiles = 0 then js ''NaN'' else String_nat (i div maxOpenFiles)) @ js ''.txt''"

text \<open>
  The loop \<open>for (let i = 0; i < currentLevel.length; i += maxOpenFiles)\<close> over the groups
  of one level, from \<open>i\<close> on. It ends with the next level, or with the error of a merge
  that throws. Nothing bounds the number of its iterations for every \<open>maxOpenFiles\<close>, so
  it is a partial function: \<open>None\<close> is a loop that does not end.
\<close>

partial_function (option) merge_groups ::
  "node \<Rightarrow> js_string \<Rightarrow> nat \<Rightarrow> nat \<Rightarrow> js_string list \<Rightarrow> nat \<Rightarrow> js_string list \<Rightarrow> filesystem
     \<Rightarrow> ((error + js_string list) \<times> filesystem) option" where
  "merge_groups N tempDir levelIndex maxOpenFiles currentLevel i nextLevel fs =
     (if i < length currentLevel then
        let group = take maxOpenFiles (drop i currentLevel)
        in if length group = 1 \<and> i + maxOpenFiles \<ge> length currentLevel
           then merge_groups N tempDir levelIndex maxOpenFiles currentLevel (i + maxOpenFiles)
                  (nextLevel @ [group ! 0]) fs
           else let mergedChunkPath =
                      path_join N tempDir (mergedChunkName levelIndex i maxOpenFiles)
                in (case kWayMerge fs group mergedChunkPath of
                      (Inl e, fs') \<Rightarrow> Some (Inl e, fs')
                    | (Inr v, fs') \<Rightarrow>
                        merge_groups N tempDir levelIndex maxOpenFiles currentLevel
                          (i + maxOpenFiles) (nextLevel @ [mergedChunkPath]) fs')
      else Some (Inr nextLevel, fs))"

declare merge_groups.simps [code]

text \<open>
  The loop \<open>while (currentLevel.length > 1)\<close>; \<open>levelIndex\<close> counts the levels merged so
  far, and the result carries it.
\<close>

partial_function (option) merge_levels ::
  "node \<Rightarrow> js_string \<Rightarrow> nat \<Rightarrow> js_string list \<Rightarrow> nat \<Rightarrow> filesystem
     \<Rightarrow> ((error + js_string list) \<times> nat \<times> filesystem) option" where
  "merge_levels N tempDir maxOpenFiles currentLevel levelIndex fs =
     (if length currentLevel > 1 then
        (case merge_groups N tempDir (levelIndex + 1) maxOpenFiles currentLevel 0 [] fs of
           None \<Rightarrow> None
         | Some (Inl e, fs') \<Rightarrow> Some (Inl e, levelIndex + 1, fs')
         | Some (Inr nextLevel, fs') \<Rightarrow>
             merge_levels N tempDir maxOpenFiles nextLevel (levelIndex + 1) fs')
      else Some (Inr currentLevel, levelIndex, fs))"

declare merge_levels.simps [code]

text \<open>
  \<open>_hierarchicalMerge\<close>. \<open>path.dirname(sortedChunks[0])\<close> throws a \<open>TypeError\<close> for an
  empty list, and \<open>fs.rename\<close> fails when the file to rename is not there.
\<close>

definition hierarchicalMerge ::
  "node \<Rightarrow> filesystem \<Rightarrow> js_string list \<Rightarrow> js_string \<Rightarrow> nat
     \<Rightarrow> ((error + js_value) \<times> filesystem) option" where
  "hierarchicalMerge N fs sortedChunks outputFile maxOpenFiles =
     (case sortedChunks of
        [] \<Rightarrow> Some (Inl TypeError, fs)
      | first # _ \<Rightarrow>
          (case merge_levels N (path_dirname N first) maxOpenFiles sortedChunks 0 fs of
             None \<Rightarrow> None
           | Some (Inl e, levels, fs') \<Rightarrow> Some (Inl e, fs')
           | Some (Inr currentLevel, levels, fs') \<Rightarrow>
               if length currentLevel = 1 \<and> currentLevel ! 0 \<noteq> outputFile
               then (case fs' (currentLevel ! 0) of
                       None \<Rightarrow> Some (Inl (ENOENT (currentLevel ! 0)), fs')
                     | Some content \<Rightarrow>
                         Some (Inr Undefined,
                               (fs'(currentLevel ! 0 := None))(outputFile \<mapsto> content)))
               else Some (Inr Undefined, fs')))"

text \<open>\<open>merge\<close>: \<open>options.maxOpenFiles || 100\<close> takes 100 for a missing or zero option.\<close>

definition Merger_merge ::
  "node \<Rightarrow> filesystem \<Rightarrow> js_string list \<Rightarrow> js_string \<Rightarrow> nat option
     \<Rightarrow> ((error + js_value) \<times> filesystem) option" where
  "Merger_merge N fs sortedChunks outputFile options_maxOpenFiles =
     (let maxOpenFiles = (case options_maxOpenFiles of
                            None \<Rightarrow> 100
                          | Some m \<Rightarrow> if m = 0 then 100 else m)
      in if length sortedChunks \<le> maxOpenFiles
         then Some (kWayMerge fs sortedChunks outputFile)
         else hierarchicalMerge N fs sortedChunks outputFile maxOpenFiles)"


subsection \<open>Levels shrink and the merge ends\<close>














section \<open>The pipeline\<close>

subsection \<open>sorter.js: \<open>sortChunks\<close>\<close>

text \<open>
  \<open>sortChunks(chunkFiles, options)\<close>: workers are used unless \<open>options.useWorkers\<close> is
  given and false; \<open>options.maxWorkers || Math.max(1, Math.min(4, os.cpus().length))\<close>
  is the size of the pool. With workers off or at most one chunk the chunks are sorted
  in the main thread, otherwise by the pool.
\<close>

record sort_options =
  opt_useWorkers :: "bool option"
  opt_maxWorkers :: "nat option"

definition Sorter_sortChunks ::
  "node \<Rightarrow> filesystem \<Rightarrow> js_string list \<Rightarrow> sort_options \<Rightarrow> (error + js_string list) \<times> filesystem" where
  "Sorter_sortChunks N fs chunkList options =
     (let useW = (case opt_useWorkers options of None \<Rightarrow> True | Some b \<Rightarrow> b);
          maxW = (case opt_maxWorkers options of
                    None \<Rightarrow> max 1 (min 4 (cpus N))
                  | Some m \<Rightarrow> if m = 0 then max 1 (min 4 (cpus N)) else m)
      in if \<not> useW \<or> length chunkList \<le> 1
         then sortChunks_sequential (directories N) fs chunkList []
         else worker_pool N maxW chunkList fs)"

subsection \<open>The three stages\<close>

text \<open>
  Split, sort, merge, each stage on the files the stage before has left; the first
  error ends the run.
\<close>

definition split_sort_merge ::
  "node \<Rightarrow> splitter \<Rightarrow> sort_options \<Rightarrow> nat option \<Rightarrow> filesystem \<Rightarrow> js_string \<Rightarrow> js_string
     \<Rightarrow> js_string \<Rightarrow> ((error + js_value) \<times> filesystem) option" where
  "split_sort_merge N sp sortOptions mergeOptions fs inputFile outputFile tempDir =
     (case Splitter_split N sp fs inputFile tempDir of
        (Inl e, fs1) \<Rightarrow> Some (Inl e, fs1)
      | (Inr chunkList, fs1) \<Rightarrow>
          (case Sorter_sortChunks N fs1 chunkList sortOptions of
             (Inl e, fs2) \<Rightarrow> Some (Inl e, fs2)
           | (Inr sortedChunks, fs2) \<Rightarrow>
               Merger_merge N fs2 sortedChunks outputFile mergeOptions))"

subsection \<open>index.js: \<open>externalSort\<close>\<close>

text \<open>
  \<open>cleanupTempDir\<close> of \<open>utils.js\<close> unlinks every name that \<open>readdir\<close> lists in the
  directory; failures are ignored. \<open>createTempDir\<close> makes the directory with
  \<open>mkdir\<close> and \<open>recursive: true\<close>, which succeeds when the directory is there already;
  after it the directory exists.
\<close>

definition createTempDir :: "node \<Rightarrow> js_string \<Rightarrow> node" where
  "createTempDir N tempDir = N\<lparr>directories := tempDir # directories N\<rparr>"

definition cleanupTempDir :: "node \<Rightarrow> filesystem \<Rightarrow> js_string \<Rightarrow> filesystem" where
  "cleanupTempDir N fs tempDir =
     fold (\<lambda>file f. f(path_join N tempDir file := None)) (readdir N fs tempDir) fs"

text \<open>
  The options of \<open>externalSort\<close>, spread over the defaults. The splitter gets the
  memory budget; \<open>sortChunks\<close> and \<open>merge\<close> are called without options.
\<close>

record sort_opts =
  opt_maxMemoryBytes :: "nat option"
  opt_tempDir :: "js_string option"
  opt_cleanup :: "bool option"

definition externalSort ::
  "node \<Rightarrow> filesystem \<Rightarrow> js_string \<Rightarrow> js_string \<Rightarrow> sort_opts
     \<Rightarrow> ((error + js_value) \<times> filesystem) option" where
  "externalSort N fs inputFile outputFile options =
     (let maxMem = (case opt_maxMemoryBytes options of None \<Rightarrow> 400 * 1024 * 1024 | Some v \<Rightarrow> v);
          tempDir = (case opt_tempDir options of
                       None \<Rightarrow> path_join N (cwd N) (js ''temp_sort'')
                     | Some d \<Rightarrow> d);
          cleanup = (case opt_cleanup options of None \<Rightarrow> True | Some b \<Rightarrow> b)
      in (case split_sort_merge (createTempDir N tempDir) (new_Splitter (Some maxMem))
                 \<lparr>opt_useWorkers = None, opt_maxWorkers = None\<rparr> None
                 fs inputFile outputFile tempDir of
            None \<Rightarrow> None
          | Some (Inl e, fs') \<Rightarrow> Some (Inl e, fs')
          | Some (Inr v, fs') \<Rightarrow>
              Some (Inr Undefined, if cleanup then cleanupTempDir N fs' tempDir else fs')))"


subsection \<open>An empty input\<close>

text \<open>The options of the examples: a budget of ten bytes, and no cleanup.\<close>

definition ex_options :: sort_opts where
  "ex_options = \<lparr>opt_maxMemoryBytes = Some 10, opt_tempDir = Some (js ''t''), opt_cleanup = Some False\<rparr>"

text \<open>
  C4. The claim fails: for an empty input file the merge is handed no chunk, and
  \<open>_kWayMerge\<close> throws when none of its chunks can be read; \<open>externalSort\<close> rejects
  with that error and no output file is written.
\<close>

theorem externalSort_empty_input_counterexample:
  "map_option fst (externalSort posix (ex_input []) (js ''in'') (js ''out'') ex_options)
     = Some (Inl (Error (js ''no valid chunk files found for merging''))) \<and>
   map_option (\<lambda>r. snd r (js ''out'')) (externalSort posix (ex_input []) (js ''in'') (js ''out'') ex_options)
     = Some None"
proof -
  have sp: "new_Splitter (Some 10) = \<lparr>maxMemoryBytes = 10, chunkSizeBytes = 8\<rparr>"
    by (simp add: new_Splitter_Some)
  have e: "externalSort posix (ex_input []) (js ''in'') (js ''out'') ex_options =
      (case split_sort_merge (createTempDir posix (js ''t'')) \<lparr>maxMemoryBytes = 10, chunkSizeBytes = 8\<rparr>
               \<lparr>opt_useWorkers = None, opt_maxWorkers = None\<rparr> None
               (ex_input []) (js ''in'') (js ''out'') (js ''t'') of
         None \<Rightarrow> None
       | Some (Inl e, fs') \<Rightarrow> Some (Inl e, fs')
       | Some (Inr v, fs') \<Rightarrow> Some (Inr Undefined, fs'))"
    by (simp add: externalSort_def ex_options_def sp Let_def split: option.split sum.split prod.split)
  show ?thesis
    unfolding e by code_simp
qed

text \<open>
  C4, amended. For an empty input file, \<open>split\<close> returns no chunk and writes none,
  \<open>sortChunks\<close> returns the empty list, and \<open>merge\<close> fails with the error \<open>no valid
  chunk files found for merging\<close> and writes nothing; \<open>externalSort\<close> rejects with
  that error and leaves the files as they were.
\<close>

theorem externalSort_empty_input:
  assumes "fs inputFile = Some []"
  shows "Splitter_split N sp fs inputFile tempDir = (Inr [], fs) \<and>
    Sorter_sortChunks N fs [] sortOptions = (Inr [], fs) \<and>
    Merger_merge N fs [] outputFile mergeOptions
      = Some (Inl (Error (js ''no valid chunk files found for merging'')), fs) \<and>
    externalSort N fs inputFile outputFile options
      = Some (Inl (Error (js ''no valid chunk files found for merging'')), fs)"
proof -
  have s: "Splitter_split N sp fs inputFile tempDir = (Inr [], fs)" for N sp tempDir
    using assms by (simp add: Splitter_split_def)
  have c: "Sorter_sortChunks N fs [] sortOptions = (Inr [], fs)" for N sortOptions
    by (simp add: Sorter_sortChunks_def Let_def)
  have m: "Merger_merge N fs [] outputFile mergeOptions
      = Some (Inl (Error (js ''no valid chunk files found for merging'')), fs)" for N mergeOptions
    by (simp add: Merger_merge_def kWayMerge_def existing_chunks_def Let_def)
  have "externalSort N fs inputFile outputFile options
      = Some (Inl (Error (js ''no valid chunk files found for merging'')), fs)"
    by (simp add: externalSort_def split_sort_merge_def s c m Let_def)
  then show ?thesis using s c m by simp
qed

theorem externalSort_empty_input_witness:
  "ex_input [] (js ''in'') = Some [] \<and>
   Splitter_split posix (new_Splitter None) (ex_input []) (js ''in'') (js ''t'') = (Inr [], ex_input []) \<and>
   externalSort posix (ex_input []) (js ''in'') (js ''out'') ex_options
      = Some (Inl (Error (js ''no valid chunk files found for merging'')), ex_input [])"
proof -
  have h: "ex_input [] (js ''in'') = Some []"
    by (simp add: ex_input_def)
  show ?thesis
    using h externalSort_empty_input [of "ex_input []" "js ''in''" posix "new_Splitter None"
        "js ''t''" _ "js ''out''" _ ex_options, OF h]
    by simp
qed


end
